theory Spec2Isabelle
  imports Complex_Main "HOL-Library.Sublist"
begin

section \<open>Python values used by the fuzzy-match transform\<close>

text \<open>
  The development embeds \<^verbatim>\<open>eole/transforms/fuzzymatch.py\<close>. A Python \<^verbatim>\<open>str\<close> is a
  \<^typ>\<open>string\<close>, one \<^typ>\<open>char\<close> per code point, so that \<^const>\<open>length\<close> is Python's
  \<^verbatim>\<open>len\<close>; a \<^typ>\<open>char\<close> has eight bits, so the strings of the model are those of code
  points below 256. A Python float is the rational number it stands for; the one float
  operation of the code, the product in the quota test, is rounded to a double as
  IEEE 754 prescribes. Every exception the code can raise is a value of \<open>error\<close>, and
  a function that can raise returns \<open>error + 'a\<close>.
\<close>

datatype error = ValueError | IndexError | AttributeError | KeyError | AssertionError

subsection \<open>\<^verbatim>\<open>str.split(sep)\<close>, \<^verbatim>\<open>str.strip()\<close>, \<^verbatim>\<open>" ".join(tokens)\<close>\<close>

text \<open>
  \<^verbatim>\<open>s.split(sep)\<close> with a separator scans \<^verbatim>\<open>s\<close> from the left, cuts at every
  non-overlapping occurrence of \<^verbatim>\<open>sep\<close> and returns all the pieces, empty ones included.
  \<open>split_on d ds cur s\<close> is that scan for the separator \<open>d # ds\<close>, where \<open>cur\<close> is the
  piece collected so far. An empty separator raises \<^verbatim>\<open>ValueError\<close>.
\<close>

fun split_on :: "char \<Rightarrow> string \<Rightarrow> string \<Rightarrow> string \<Rightarrow> string list" where
  "split_on d ds cur [] = [cur]"
| "split_on d ds cur (c # cs) =
     (if prefix (d # ds) (c # cs) then cur # split_on d ds [] (drop (length ds) cs)
      else split_on d ds (cur @ [c]) cs)"

definition py_split :: "string \<Rightarrow> string \<Rightarrow> error + string list" where
  "py_split s sep = (case sep of [] \<Rightarrow> Inl ValueError | d # ds \<Rightarrow> Inr (split_on d ds [] s))"

text \<open>
  \<^verbatim>\<open>str.isspace\<close> on the code points below 256: TAB, LF, VT, FF, CR, the four
  separators FS, GS, RS, US, the space, NEL and the no-break space.
\<close>

definition py_isspace :: "char \<Rightarrow> bool" where
  "py_isspace c = (of_char c \<in> {9, 10, 11, 12, 13, 28, 29, 30, 31, 32, 133, 160 :: nat})"

definition strip :: "string \<Rightarrow> string" where
  "strip s = rev (dropWhile py_isspace (rev (dropWhile py_isspace s)))"

fun join_space :: "string list \<Rightarrow> string" where
  "join_space [] = []"
| "join_space [t] = t"
| "join_space (t # u # ts) = t @ CHR '' '' # join_space (u # ts)"

subsection \<open>Double-precision floats\<close>

text \<open>
  \<open>to_double x\<close> is the double nearest to \<open>x\<close>, ties to the even significand: the
  result of an IEEE 754 operation whose exact result is \<open>x\<close>, and the float that a
  decimal literal \<open>x\<close> denotes. A double has a significand of 53 bits and an exponent
  of at least \<open>- 1074\<close>. Overflow to infinity is left out: the finite value stands in its
  place, and compares with a count as infinity does. \<open>int_bits p\<close> is the number of
  binary digits of a positive integer, read off its binary numeral.
\<close>

primrec num_bits :: "num \<Rightarrow> int" where
  "num_bits Num.One = 1"
| "num_bits (Num.Bit0 k) = 1 + num_bits k"
| "num_bits (Num.Bit1 k) = 1 + num_bits k"

definition int_bits :: "int \<Rightarrow> int" where
  "int_bits p = (if p \<le> 0 then 0 else num_bits (num_of_nat (nat p)))"

definition pow2 :: "int \<Rightarrow> rat" where
  "pow2 e = (if 0 \<le> e then 2 ^ nat e else 1 / 2 ^ nat (- e))"

text \<open>The exponent \<open>e\<close> of a positive \<open>x\<close>, with \<open>2 ^ e \<le> x < 2 ^ (e + 1)\<close>.\<close>

definition binade :: "rat \<Rightarrow> int" where
  "binade x =
     (case quotient_of x of (p, q) \<Rightarrow>
        let e = int_bits p - int_bits q
        in if pow2 e \<le> x then e else e - 1)"

definition round_even :: "rat \<Rightarrow> int" where
  "round_even x =
     (let f = \<lfloor>x\<rfloor>; d = x - of_int f
      in if d < 1 / 2 then f else if 1 / 2 < d then f + 1 else if even f then f else f + 1)"

definition to_double :: "rat \<Rightarrow> rat" where
  "to_double x =
     (if x = 0 then 0
      else let e = max (binade \<bar>x\<bar> - 52) (- 1074)
           in sgn x * of_int (round_even (\<bar>x\<bar> / pow2 e)) * pow2 e)"

definition float_mul :: "rat \<Rightarrow> rat \<Rightarrow> rat" where
  "float_mul a b = to_double (a * b)"

section \<open>\<^verbatim>\<open>FuzzyMatcher\<close>\<close>

text \<open>
  The translation memory \<^verbatim>\<open>internal_tm\<close> is the two-element list
  \<^verbatim>\<open>[src_segments, tgt_segments]\<close>: a pair of lists here, \<^const>\<open>fst\<close> for index 0 and
  \<^const>\<open>snd\<close> for index 1.
\<close>

type_synonym tm = "string list \<times> string list"

record fuzzy_matcher =
  threshold :: rat
  corpus_ratio :: rat
  tm_delimiter :: string
  fuzzy_token :: string
  tm_unit_min_length :: int
  tm_unit_max_length :: int
  internal_tm :: tm

subsection \<open>\<^verbatim>\<open>_create_tm\<close>\<close>

text \<open>
  \<open>create_tm_loop\<close> is the \<^verbatim>\<open>for pair in pairs\<close> loop over the lines that
  \<^verbatim>\<open>readlines\<close> returned, with the two lists under construction as its state. The
  unpacking \<^verbatim>\<open>source, target = ...\<close> raises \<^verbatim>\<open>ValueError\<close> unless the split gave exactly
  two fields; the exception leaves the function, so the lists built so far are lost.
  The delimiter is a string and the two bounds are integers (the configuration also
  admits \<^verbatim>\<open>None\<close> for them, which the model leaves out).
\<close>

fun create_tm_loop ::
  "string \<Rightarrow> int \<Rightarrow> int \<Rightarrow> string list \<Rightarrow> tm \<Rightarrow> error + tm" where
  "create_tm_loop delim mn mx [] (src_segments, tgt_segments) =
     Inr (src_segments, tgt_segments)"
| "create_tm_loop delim mn mx (pair # pairs) (src_segments, tgt_segments) =
     (case py_split pair delim of
        Inl e \<Rightarrow> Inl e
      | Inr [source, target] \<Rightarrow>
          (if int (length source) < mn \<or> int (length source) > mx
           then create_tm_loop delim mn mx pairs (src_segments, tgt_segments)
           else create_tm_loop delim mn mx pairs
                  (src_segments @ [strip source], tgt_segments @ [strip target]))
      | Inr _ \<Rightarrow> Inl ValueError)"

definition create_tm :: "string \<Rightarrow> int \<Rightarrow> int \<Rightarrow> string list \<Rightarrow> error + tm" where
  "create_tm delim mn mx pairs = create_tm_loop delim mn mx pairs ([], [])"

text \<open>The constructor \<^verbatim>\<open>FuzzyMatcher.__init__\<close>, given the lines of the file at \<^verbatim>\<open>tm_path\<close>.\<close>

definition FuzzyMatcher ::
  "string list \<Rightarrow> rat \<Rightarrow> rat \<Rightarrow> string \<Rightarrow> string \<Rightarrow> int \<Rightarrow> int \<Rightarrow> error + fuzzy_matcher" where
  "FuzzyMatcher tm_lines ratio thr delim token mn mx =
     (case create_tm delim mn mx tm_lines of
        Inl e \<Rightarrow> Inl e
      | Inr t \<Rightarrow> Inr \<lparr>threshold = thr, corpus_ratio = ratio, tm_delimiter = delim,
                      fuzzy_token = token, tm_unit_min_length = mn,
                      tm_unit_max_length = mx, internal_tm = t\<rparr>)"

subsection \<open>The similarity scorer\<close>

text \<open>
  \<^verbatim>\<open>rapidfuzz.fuzz.ratio\<close> is an external function: the model takes it as the parameter
  \<open>scorer\<close>, the similarity of a query and a TM source on the scale 0 to 100.
\<close>

type_synonym scorer = "string \<Rightarrow> string \<Rightarrow> rat"

text \<open>
  Modelled from the spec: \<^verbatim>\<open>rapidfuzz.process.cdist\<close>, which is not part of the
  repository. It returns the matrix of the similarities of every query with every choice,
  in which any raw score below the cutoff is reported as 0. The call asks for
  \<^verbatim>\<open>dtype=np.uint8\<close>, so a cell holds the score rounded to an integer of 8 bits.
\<close>

definition to_uint8 :: "rat \<Rightarrow> nat" where
  "to_uint8 r = nat (round r mod 256)"

definition cdist_cell :: "scorer \<Rightarrow> rat \<Rightarrow> string \<Rightarrow> string \<Rightarrow> nat" where
  "cdist_cell sc score_cutoff q c = (if sc q c < score_cutoff then 0 else to_uint8 (sc q c))"

definition cdist :: "scorer \<Rightarrow> string list \<Rightarrow> string list \<Rightarrow> rat \<Rightarrow> nat list list" where
  "cdist sc queries choices score_cutoff =
     map (\<lambda>q. map (cdist_cell sc score_cutoff q) choices) queries"

text \<open>
  \<^verbatim>\<open>np.any(results, 1)\<close> tells for each row whether some cell is not zero.
  \<^verbatim>\<open>np.argmax(results, axis=1)\<close> gives for each row the index of the first occurrence of
  its maximum, and raises \<^verbatim>\<open>ValueError\<close> when the rows have no column at all.
\<close>

definition np_any :: "nat list \<Rightarrow> bool" where
  "np_any row = (\<exists>x \<in> set row. x \<noteq> 0)"

fun argmax_from :: "nat \<Rightarrow> nat \<Rightarrow> nat \<Rightarrow> nat list \<Rightarrow> nat" where
  "argmax_from best_i best_v i [] = best_i"
| "argmax_from best_i best_v i (x # xs) =
     (if best_v < x then argmax_from i x (Suc i) xs else argmax_from best_i best_v (Suc i) xs)"

definition np_argmax :: "nat list \<Rightarrow> nat" where
  "np_argmax row = (case row of [] \<Rightarrow> 0 | x # xs \<Rightarrow> argmax_from 0 x 1 xs)"

definition argmax_axis1 :: "nat \<Rightarrow> nat list list \<Rightarrow> error + nat list" where
  "argmax_axis1 ncols results =
     (if ncols = 0 then Inl ValueError else Inr (map np_argmax results))"

subsection \<open>\<^verbatim>\<open>np.array_split\<close>\<close>

text \<open>
  \<^verbatim>\<open>np.array_split(ary, n)\<close> first makes a NumPy array of the list. An array of strings
  has cells of a fixed width, padded with NUL characters, and reading a cell drops the
  NUL characters at its end: a string comes back without its trailing NULs
  (\<open>np_str\<close>). The array is then cut into \<open>n\<close> consecutive sections: with
  \<^verbatim>\<open>Neach, extras = divmod(len(ary), n)\<close>, the first \<open>extras\<close> sections have
  \<open>Neach + 1\<close> items and the others \<open>Neach\<close>. It raises \<^verbatim>\<open>ValueError\<close> for \<open>n = 0\<close>.
\<close>

definition np_str :: "string \<Rightarrow> string" where
  "np_str s = rev (dropWhile (\<lambda>c. c = CHR 0x00) (rev s))"

definition np_array :: "string list \<Rightarrow> string list" where
  "np_array ary = map np_str ary"

fun sections :: "nat list \<Rightarrow> 'a list \<Rightarrow> 'a list list" where
  "sections [] ary = []"
| "sections (k # ks) ary = take k ary # sections ks (drop k ary)"

definition array_split :: "string list \<Rightarrow> nat \<Rightarrow> error + string list list" where
  "array_split ary n =
     (if n = 0 then Inl ValueError
      else let sary = np_array ary; Neach = length sary div n; extras = length sary mod n
           in Inr (sections (replicate extras (Neach + 1) @ replicate (n - extras) Neach) sary))"

subsection \<open>\<^verbatim>\<open>_get_batch_matches\<close>\<close>

definition chunk_size :: nat where
  "chunk_size = 10000"

definition mini_batches :: "string list \<Rightarrow> error + string list list" where
  "mini_batches batch =
     array_split batch
       (if length batch > chunk_size then length batch div chunk_size else 1)"

text \<open>
  The test \<^verbatim>\<open>fuzzy_count >= len(batch) * self.corpus_ratio\<close>. The product is a float
  product: the length is converted to a float, the ratio is the double that the
  configured number denotes, and the result is rounded. Python compares the integer
  count with that float exactly.
\<close>

definition quota_cap :: "fuzzy_matcher \<Rightarrow> nat \<Rightarrow> rat" where
  "quota_cap m batch_len = float_mul (to_double (of_nat batch_len)) (to_double (corpus_ratio m))"

definition quota_reached :: "fuzzy_matcher \<Rightarrow> nat \<Rightarrow> nat \<Rightarrow> bool" where
  "quota_reached m batch_len fuzzy_count = (of_nat fuzzy_count \<ge> quota_cap m batch_len)"

text \<open>
  \<open>item_loop\<close> is the loop \<^verbatim>\<open>for idx, s in enumerate(plist)\<close>. Each element of its list
  argument is an item \<^verbatim>\<open>s\<close> with \<^verbatim>\<open>matches[idx]\<close>, \<^verbatim>\<open>argmax[idx]\<close> and \<^verbatim>\<open>results[idx]\<close>.
  It returns the updated \<^verbatim>\<open>plist\<close> and \<^verbatim>\<open>fuzzy_count\<close>. On \<^verbatim>\<open>break\<close> the rest of the
  chunk stays as it is. Reading \<^verbatim>\<open>self.internal_tm[1]\<close> out of range raises
  \<^verbatim>\<open>IndexError\<close>.
\<close>

fun item_loop ::
  "fuzzy_matcher \<Rightarrow> nat \<Rightarrow> nat \<Rightarrow> (string \<times> bool \<times> nat \<times> nat list) list
     \<Rightarrow> error + (string list \<times> nat)" where
  "item_loop m batch_len fuzzy_count [] = Inr ([], fuzzy_count)"
| "item_loop m batch_len fuzzy_count ((s, matched, k, row) # rest) =
     (if sublist (fuzzy_token m) s then
        (case item_loop m batch_len fuzzy_count rest of
           Inl e \<Rightarrow> Inl e
         | Inr (plist, fc) \<Rightarrow> Inr (s # plist, fc))
      else if matched \<and> row ! k < 100 then
        (if quota_reached m batch_len fuzzy_count then Inr (s # map fst rest, fuzzy_count)
         else if k < length (snd (internal_tm m)) then
           (case item_loop m batch_len (fuzzy_count + 1) rest of
              Inl e \<Rightarrow> Inl e
            | Inr (plist, fc) \<Rightarrow>
                Inr ((s @ fuzzy_token m @ snd (internal_tm m) ! k) # plist, fc))
         else Inl IndexError)
      else
        (case item_loop m batch_len fuzzy_count rest of
           Inl e \<Rightarrow> Inl e
         | Inr (plist, fc) \<Rightarrow> Inr (s # plist, fc)))"

text \<open>The body of the chunk loop after the quota test: one scorer call, then the items.\<close>

definition score_chunk ::
  "fuzzy_matcher \<Rightarrow> scorer \<Rightarrow> nat \<Rightarrow> nat \<Rightarrow> string list \<Rightarrow> error + (string list \<times> nat)" where
  "score_chunk m sc batch_len fuzzy_count plist =
     (let results = cdist sc plist (fst (internal_tm m)) (threshold m);
          matches = map np_any results
      in case argmax_axis1 (length (fst (internal_tm m))) results of
           Inl e \<Rightarrow> Inl e
         | Inr argmax \<Rightarrow>
             item_loop m batch_len fuzzy_count (zip plist (zip matches (zip argmax results))))"

text \<open>
  \<open>mini_batch_loop\<close> is the loop \<^verbatim>\<open>for mini_batch in mini_batches\<close>; its state is
  \<^verbatim>\<open>augmented\<close> and \<^verbatim>\<open>fuzzy_count\<close>.
\<close>

fun mini_batch_loop ::
  "fuzzy_matcher \<Rightarrow> scorer \<Rightarrow> nat \<Rightarrow> string list list \<Rightarrow> string list \<times> nat
     \<Rightarrow> error + (string list \<times> nat)" where
  "mini_batch_loop m sc batch_len [] (augmented, fuzzy_count) = Inr (augmented, fuzzy_count)"
| "mini_batch_loop m sc batch_len (plist # rest) (augmented, fuzzy_count) =
     (if quota_reached m batch_len fuzzy_count
      then mini_batch_loop m sc batch_len rest (augmented @ plist, fuzzy_count)
      else (case score_chunk m sc batch_len fuzzy_count plist of
              Inl e \<Rightarrow> Inl e
            | Inr (plist', fuzzy_count') \<Rightarrow>
                mini_batch_loop m sc batch_len rest (augmented @ plist', fuzzy_count')))"

text \<open>
  \<open>batch_matches_state\<close> runs the function up to its last line and gives \<^verbatim>\<open>augmented\<close>
  together with \<^verbatim>\<open>fuzzy_count\<close>, the number the debug message reports;
  \<open>get_batch_matches\<close> is what the function returns.
\<close>

definition batch_matches_state ::
  "fuzzy_matcher \<Rightarrow> scorer \<Rightarrow> string list \<Rightarrow> error + (string list \<times> nat)" where
  "batch_matches_state m sc batch =
     (case mini_batches batch of
        Inl e \<Rightarrow> Inl e
      | Inr chunks \<Rightarrow> mini_batch_loop m sc (length batch) chunks ([], 0))"

definition get_batch_matches ::
  "fuzzy_matcher \<Rightarrow> scorer \<Rightarrow> string list \<Rightarrow> error + string list" where
  "get_batch_matches m sc batch =
     (case batch_matches_state m sc batch of
        Inl e \<Rightarrow> Inl e
      | Inr (augmented, fuzzy_count) \<Rightarrow> Inr augmented)"

section \<open>\<^verbatim>\<open>FuzzyMatchConfig\<close> and \<^verbatim>\<open>FuzzyMatchTransform\<close>\<close>

subsection \<open>The configuration class\<close>

datatype pyval = PNone | PStr string | PInt int | PFloat rat

text \<open>
  The body of \<^verbatim>\<open>class FuzzyMatchConfig\<close> is a sequence of field declarations, each a
  name with its default, listed here in the order of the source (the default marker
  token is written as its UTF-8 bytes). Python executes a class body as assignments
  into the namespace of the class, so a name declared twice keeps its last declaration.
\<close>

definition FuzzyMatchConfig_body :: "(string \<times> pyval) list" where
  "FuzzyMatchConfig_body =
     [(''tm_path'', PNone),
      (''fuzzy_corpus_ratio'', PFloat (to_double (1 / 10))),
      (''fuzzy_threshold'', PFloat 70),
      (''tm_delimiter'', PStr [CHR 0x09]),
      (''fuzzy_token'', PStr ([CHR 0xEF, CHR 0xBD, CHR 0x9F] @ ''fuzzy'' @ [CHR 0xEF, CHR 0xBD, CHR 0xA0])),
      (''fuzzymatch_min_length'', PInt 4),
      (''fuzzymatch_min_length'', PInt 70)]"

definition class_namespace :: "(string \<times> pyval) list \<Rightarrow> (string \<rightharpoonup> pyval)" where
  "class_namespace body = fold (\<lambda>(name, v) ns. ns(name \<mapsto> v)) body Map.empty"

text \<open>A configuration object with every field at its default.\<close>

definition FuzzyMatchConfig_defaults :: "string \<rightharpoonup> pyval" where
  "FuzzyMatchConfig_defaults = class_namespace FuzzyMatchConfig_body"

text \<open>
  \<^verbatim>\<open>_parse_config\<close> is seven assignments \<^verbatim>\<open>self.x = self.config.x\<close>, in this order.
  Reading an attribute that the configuration object does not have raises
  \<^verbatim>\<open>AttributeError\<close>. The attributes of \<^verbatim>\<open>self\<close> are a map from names to values.
\<close>

fun copy_attrs ::
  "string list \<Rightarrow> (string \<rightharpoonup> pyval) \<Rightarrow> (string \<rightharpoonup> pyval) \<Rightarrow> error + (string \<rightharpoonup> pyval)" where
  "copy_attrs [] config self = Inr self"
| "copy_attrs (name # names) config self =
     (case config name of
        None \<Rightarrow> Inl AttributeError
      | Some v \<Rightarrow> copy_attrs names config (self(name \<mapsto> v)))"

definition parse_config :: "(string \<rightharpoonup> pyval) \<Rightarrow> (string \<rightharpoonup> pyval) \<Rightarrow> error + (string \<rightharpoonup> pyval)" where
  "parse_config config self =
     copy_attrs [''tm_path'', ''fuzzy_corpus_ratio'', ''fuzzy_threshold'', ''tm_delimiter'',
                 ''fuzzy_token'', ''fuzzymatch_min_length'', ''fuzzymatch_max_length'']
       config self"

subsection \<open>\<^verbatim>\<open>batch_apply\<close>\<close>

text \<open>
  An example is a dictionary from field names to token sequences; an element of a batch
  is a triple whose first component is the example. \<^verbatim>\<open>batch_apply\<close> reads the two
  length bounds and the matcher from \<^verbatim>\<open>self\<close>. It assigns to \<^verbatim>\<open>example["src"]\<close> in
  place; the model returns the batch with the new examples.
\<close>

type_synonym example = "string \<rightharpoonup> string list"

record fuzzy_match_transform =
  fuzzymatch_min_length :: int
  fuzzymatch_max_length :: int
  matcher :: fuzzy_matcher

text \<open>The first loop, which builds \<^verbatim>\<open>src_segments\<close>.\<close>

fun src_segments ::
  "fuzzy_match_transform \<Rightarrow> (example \<times> 'a \<times> 'b) list \<Rightarrow> error + string list" where
  "src_segments t [] = Inr []"
| "src_segments t ((ex, x, y) # batch) =
     (case ex ''src'' of
        None \<Rightarrow> Inl KeyError
      | Some toks \<Rightarrow>
          (case src_segments t batch of
             Inl e \<Rightarrow> Inl e
           | Inr segs \<Rightarrow>
               Inr ((if int (length (join_space toks)) > fuzzymatch_min_length t
                        \<and> int (length (join_space toks)) < fuzzymatch_max_length t
                     then join_space toks else []) # segs)))"

text \<open>The second loop, which writes the augmented strings back.\<close>

definition write_back ::
  "(example \<times> 'a \<times> 'b) list \<Rightarrow> string list \<Rightarrow> (example \<times> 'a \<times> 'b) list" where
  "write_back batch fuzzied_src =
     map (\<lambda>((example, x, y), f).
            if f \<noteq> [] then (example(''src'' \<mapsto> split_on CHR '' '' [] [] f), x, y)
            else (example, x, y))
       (zip batch fuzzied_src)"

definition batch_apply ::
  "fuzzy_match_transform \<Rightarrow> scorer \<Rightarrow> (example \<times> 'a \<times> 'b) list
     \<Rightarrow> error + (example \<times> 'a \<times> 'b) list" where
  "batch_apply t sc batch =
     (case src_segments t batch of
        Inl e \<Rightarrow> Inl e
      | Inr segs \<Rightarrow>
          (case get_batch_matches (matcher t) sc segs of
             Inl e \<Rightarrow> Inl e
           | Inr fuzzied_src \<Rightarrow>
               if length segs = length fuzzied_src then Inr (write_back batch fuzzied_src)
               else Inl AssertionError))"

section \<open>Notions used to state the properties\<close>

text \<open>
  The row \<^verbatim>\<open>results[idx]\<close> of an item depends on the item and the TM only, and with it
  \<^verbatim>\<open>matches[idx]\<close> and \<^verbatim>\<open>argmax[idx]\<close>: \<open>scored_item\<close> is what the item loop sees of
  an item.
\<close>

definition tm_row :: "fuzzy_matcher \<Rightarrow> scorer \<Rightarrow> string \<Rightarrow> nat list" where
  "tm_row m sc s = map (cdist_cell sc (threshold m) s) (fst (internal_tm m))"

definition scored_item ::
  "fuzzy_matcher \<Rightarrow> scorer \<Rightarrow> string \<Rightarrow> string \<times> bool \<times> nat \<times> nat list" where
  "scored_item m sc s = (s, np_any (tm_row m sc s), np_argmax (tm_row m sc s), tm_row m sc s)"

text \<open>
  Modelled from the spec: \<^verbatim>\<open>rapidfuzz.fuzz.ratio\<close>, a normalized similarity in
  \<open>[0, 100]\<close> computed from an edit distance. It is the normalized Indel similarity:
  with \<open>l\<close> the length of a longest common subsequence, \<open>200 * l / (len(s1) + len(s2))\<close>,
  and 100 for two empty strings. The theorems below hold for every scorer; this one is
  the scorer of the worked examples.
\<close>

fun lcs_length :: "string \<Rightarrow> string \<Rightarrow> nat" where
  "lcs_length [] ys = 0"
| "lcs_length (x # xs) [] = 0"
| "lcs_length (x # xs) (y # ys) =
     (if x = y then Suc (lcs_length xs ys)
      else max (lcs_length xs (y # ys)) (lcs_length (x # xs) ys))"

definition fuzz_ratio :: scorer where
  "fuzz_ratio s1 s2 =
     (if length s1 + length s2 = 0 then 100
      else 200 * of_nat (lcs_length s1 s2) / of_nat (length s1 + length s2))"

text \<open>
  What the item loop may do to an item: leave it as it is, or, when the item has no
  marker, has a match and its best score is below 100, append the marker and the target
  at the index \<^verbatim>\<open>argmax[idx]\<close>.
\<close>

definition item_rel ::
  "fuzzy_matcher \<Rightarrow> string \<times> bool \<times> nat \<times> nat list \<Rightarrow> string \<Rightarrow> bool" where
  "item_rel m r a =
     (case r of (s, matched, k, row) \<Rightarrow>
        a = s \<or> (\<not> sublist (fuzzy_token m) s \<and> matched \<and> row ! k < 100
                 \<and> k < length (snd (internal_tm m))
                 \<and> a = s @ fuzzy_token m @ snd (internal_tm m) ! k))"

text \<open>\<^verbatim>\<open>sep.join(pieces)\<close>, the inverse of \<^verbatim>\<open>str.split(sep)\<close>.\<close>

fun py_join :: "string \<Rightarrow> string list \<Rightarrow> string" where
  "py_join sep [] = []"
| "py_join sep [t] = t"
| "py_join sep (t # u # ts) = t @ sep @ py_join sep (u # ts)"



section \<open>Floats\<close>

text \<open>The bits of an integer literal are those of its binary numeral.\<close>

lemma int_bits_code [code]:
  "int_bits 0 = 0"
  "int_bits (Int.Pos k) = num_bits k"
  "int_bits (Int.Neg k) = 0"
  by (simp_all add: int_bits_def Int.Pos_def Int.Neg_def)

lemma round_even_nonneg: "0 \<le> x \<Longrightarrow> 0 \<le> round_even x"
  by (auto simp: round_even_def Let_def)

lemma pow2_pos: "0 < pow2 e"
  by (simp add: pow2_def)

lemma to_double_nonneg: "0 \<le> x \<Longrightarrow> 0 \<le> to_double x"
  by (auto simp: to_double_def Let_def round_even_nonneg pow2_pos less_imp_le)

lemma quota_cap_nonneg: "0 \<le> corpus_ratio m \<Longrightarrow> 0 \<le> quota_cap m n"
  by (simp add: quota_cap_def float_mul_def to_double_nonneg)

text \<open>The products of the worked examples: \<open>3 * 0.5\<close>, \<open>10 * 0.1\<close> and \<open>25 * 0.28\<close>.\<close>

lemma float_products:
  "float_mul (to_double 3) (to_double (1 / 2)) = 3 / 2"
  "float_mul (to_double 10) (to_double (1 / 10)) = 1"
  "float_mul (to_double 25) (to_double (7 / 25)) = 7 + 1 / 2 ^ 50"
  by code_simp+

section \<open>Chunking\<close>

lemma length_np_array: "length (np_array ary) = length ary"
  by (simp add: np_array_def)

lemma concat_sections: "concat (sections ks ary) = take (sum_list ks) ary"
proof (induction ks arbitrary: ary)
  case Nil
  then show ?case by simp
next
  case (Cons k ks)
  have "take k ary @ take (sum_list ks) (drop k ary) = take (k + sum_list ks) ary"
    by (simp add: take_add)
  with Cons show ?case by simp
qed

lemma sections_Nil_iff: "sections ks ary = [] \<longleftrightarrow> ks = []"
  by (cases ks) simp_all

lemma array_split_concat:
  assumes "0 < n"
  shows "\<exists>cs. array_split ary n = Inr cs \<and> concat cs = np_array ary \<and> cs \<noteq> []"
proof -
  let ?q = "length ary div n" and ?r = "length ary mod n"
  let ?ks = "replicate ?r (?q + 1) @ replicate (n - ?r) ?q"
  have lt: "?r < n" using assms by simp
  have "sum_list ?ks = ?r * (?q + 1) + (n - ?r) * ?q"
    by (simp add: sum_list_replicate)
  also have "\<dots> = ?r + (?r + (n - ?r)) * ?q"
    by (simp add: algebra_simps)
  also have "\<dots> = ?r + n * ?q"
    using lt by simp
  also have "\<dots> = length ary" by simp
  finally have total: "sum_list ?ks = length ary" .
  have "?ks \<noteq> []" using lt by simp
  with assms total show ?thesis
    by (simp add: array_split_def Let_def concat_sections sections_Nil_iff length_np_array)
qed

text \<open>The chunks are never none, and put end to end they are the items of the array.\<close>

lemma mini_batches_concat:
  "\<exists>cs. mini_batches batch = Inr cs \<and> concat cs = np_array batch \<and> cs \<noteq> []"
proof -
  have "0 < (if length batch > chunk_size then length batch div chunk_size else 1)"
    by (simp add: chunk_size_def div_greater_zero_iff)
  then show ?thesis
    unfolding mini_batches_def by (rule array_split_concat)
qed

text \<open>A batch of more than \<open>chunk_size\<close> and fewer than twice as many items is one chunk.\<close>

lemma mini_batches_below_double:
  assumes "chunk_size < length batch" and "length batch < 2 * chunk_size"
  shows "mini_batches batch = Inr [np_array batch]"
proof -
  have "length batch div chunk_size = 1"
    using assms by (simp add: chunk_size_def)
  with assms show ?thesis
    by (simp add: mini_batches_def array_split_def length_np_array)
qed

text \<open>A batch of more than \<open>chunk_size\<close> items is cut into chunks of at least
  \<open>chunk_size\<close> and at most twice as many items.\<close>

lemma length_sections:
  "sum_list ks \<le> length ary \<Longrightarrow> map length (sections ks ary) = ks"
  by (induction ks arbitrary: ary) auto

lemma array_split_sizes:
  assumes "0 < n" and "array_split ary n = Inr cs" and "c \<in> set cs"
  shows "length c = length ary div n \<or> length c = length ary div n + 1"
proof -
  let ?q = "length ary div n" and ?r = "length ary mod n"
  let ?ks = "replicate ?r (?q + 1) @ replicate (n - ?r) ?q"
  have lt: "?r < n" using assms(1) by simp
  have "sum_list ?ks = ?r * (?q + 1) + (n - ?r) * ?q"
    by (simp add: sum_list_replicate)
  also have "\<dots> = ?r + (?r + (n - ?r)) * ?q"
    by (simp add: algebra_simps)
  also have "\<dots> = ?r + n * ?q"
    using lt by simp
  also have "\<dots> = length ary" by simp
  finally have total: "sum_list ?ks = length ary" .
  have cs: "cs = sections ?ks (np_array ary)"
    using assms(1,2) by (simp add: array_split_def Let_def length_np_array)
  have "map length cs = ?ks"
    unfolding cs by (rule length_sections) (simp only: total length_np_array)
  then have "length c \<in> set ?ks"
    using assms(3) by (metis image_eqI set_map)
  then show ?thesis by auto
qed

lemma mini_batches_sizes:
  assumes "chunk_size < length batch" and "mini_batches batch = Inr cs" and "c \<in> set cs"
  shows "chunk_size \<le> length c \<and> length c \<le> 2 * chunk_size"
proof -
  let ?d = "length batch div chunk_size"
  have d: "1 \<le> ?d" using assms(1) by (simp add: chunk_size_def)
  have split: "array_split batch ?d = Inr cs"
    using assms(1,2) by (simp add: mini_batches_def)
  have "?d * chunk_size \<le> length batch" by simp
  then have lo: "chunk_size \<le> length batch div ?d"
    using d by (simp add: less_eq_div_iff_mult_less_eq)
  have "length batch = chunk_size * ?d + length batch mod chunk_size" by simp
  moreover have "length batch mod chunk_size < chunk_size" by (simp add: chunk_size_def)
  ultimately have "length batch < chunk_size * ?d + chunk_size" by linarith
  also have "\<dots> \<le> 2 * chunk_size * ?d" using d by (simp add: chunk_size_def)
  finally have "length batch div ?d < 2 * chunk_size"
    using d by (simp add: div_less_iff_less_mult)
  with lo array_split_sizes[OF _ split assms(3)] d show ?thesis by auto
qed

lemma np_str_plain: "s \<noteq> [] \<Longrightarrow> last s \<noteq> CHR 0x00 \<Longrightarrow> np_str s = s"
  by (cases s rule: rev_cases) (simp_all add: np_str_def)

lemma np_array_replicate: "np_array (replicate n s) = replicate n (np_str s)"
  by (simp add: np_array_def)

lemma mini_batches_two_chunks:
  "mini_batches (replicate 20000 s) = Inr [replicate 10000 (np_str s), replicate 10000 (np_str s)]"
proof -
  have "replicate 2 (10000::nat) = [10000, 10000]"
    by (simp add: numeral_2_eq_2)
  then show ?thesis
    by (simp add: mini_batches_def array_split_def chunk_size_def np_array_replicate)
qed

section \<open>The two loops\<close>

text \<open>Once the quota is reached the item loop changes nothing.\<close>

lemma item_loop_quota:
  "quota_reached m n fc \<Longrightarrow> item_loop m n fc rows = Inr (map fst rows, fc)"
  by (induction m n fc rows rule: item_loop.induct) auto

text \<open>Running the item loop over two lists in a row is running it over their concatenation.\<close>

lemma item_loop_append:
  "item_loop m n fc (xs @ ys) =
     (case item_loop m n fc xs of
        Inl e \<Rightarrow> Inl e
      | Inr (xs', fc') \<Rightarrow>
          (case item_loop m n fc' ys of
             Inl e \<Rightarrow> Inl e
           | Inr (ys', fc'') \<Rightarrow> Inr (xs' @ ys', fc'')))"
proof (induction m n fc xs rule: item_loop.induct)
  case (1 m n fc)
  then show ?case by (simp split: sum.splits)
next
  case (2 m n fc s matched k row rest)
  then show ?case
    by (auto simp: item_loop_quota split: sum.splits prod.splits)
qed

lemma mini_batch_loop_acc:
  "mini_batch_loop m sc n cs (aug, fc) =
     (case mini_batch_loop m sc n cs ([], fc) of
        Inl e \<Rightarrow> Inl e
      | Inr (r, fc') \<Rightarrow> Inr (aug @ r, fc'))"
proof (induction cs arbitrary: aug fc)
  case Nil
  then show ?case by simp
next
  case (Cons c cs)
  show ?case
  proof (cases "quota_reached m n fc")
    case True
    then show ?thesis
      using Cons.IH[of "aug @ c" fc] Cons.IH[of "c" fc]
      by (simp split: sum.splits prod.splits)
  next
    case False
    show ?thesis
    proof (cases "score_chunk m sc n fc c")
      case (Inl e)
      with False show ?thesis by simp
    next
      case (Inr p)
      obtain c' fc' where p: "p = (c', fc')" by (cases p)
      show ?thesis
        using False Inr p Cons.IH[of "aug @ c'" fc'] Cons.IH[of "c'" fc']
        by (simp split: sum.splits prod.splits)
    qed
  qed
qed

lemma score_chunk_eq:
  "score_chunk m sc n fc plist =
     (if fst (internal_tm m) = [] then Inl ValueError
      else item_loop m n fc (map (scored_item m sc) plist))"
proof -
  let ?row = "tm_row m sc"
  have r: "cdist sc plist (fst (internal_tm m)) (threshold m) = map ?row plist"
    by (simp add: cdist_def tm_row_def)
  have "zip plist (zip (map np_any (map ?row plist))
          (zip (map np_argmax (map ?row plist)) (map ?row plist)))
        = map (scored_item m sc) plist"
    by (induction plist) (simp_all add: scored_item_def)
  then show ?thesis
    by (simp add: score_chunk_def r argmax_axis1_def Let_def)
qed

lemma mini_batch_loop_quota:
  "quota_reached m n fc \<Longrightarrow> mini_batch_loop m sc n cs (aug, fc) = Inr (aug @ concat cs, fc)"
  by (induction cs arbitrary: aug) simp_all

lemma map_fst_scored: "map (fst \<circ> scored_item m sc) xs = xs"
  by (induction xs) (simp_all add: scored_item_def)

text \<open>With a TM that is not empty, the chunk loop is the item loop over all the items.\<close>

lemma mini_batch_loop_items:
  "fst (internal_tm m) \<noteq> [] \<Longrightarrow>
   mini_batch_loop m sc n cs ([], fc) = item_loop m n fc (map (scored_item m sc) (concat cs))"
proof (induction cs arbitrary: fc)
  case Nil
  then show ?case by simp
next
  case (Cons c cs)
  show ?case
  proof (cases "quota_reached m n fc")
    case True
    then show ?thesis
      by (simp add: mini_batch_loop_quota item_loop_quota map_fst_scored)
  next
    case False
    show ?thesis
    proof (cases "item_loop m n fc (map (scored_item m sc) c)")
      case (Inl e)
      with False Cons.prems show ?thesis
        by (simp add: score_chunk_eq item_loop_append)
    next
      case (Inr p)
      obtain c' fc' where p: "p = (c', fc')" by (cases p)
      have "mini_batch_loop m sc n (c # cs) ([], fc) = mini_batch_loop m sc n cs (c', fc')"
        using False Cons.prems Inr p by (simp add: score_chunk_eq)
      also have "\<dots> = (case item_loop m n fc' (map (scored_item m sc) (concat cs)) of
                          Inl e \<Rightarrow> Inl e | Inr (r, fc'') \<Rightarrow> Inr (c' @ r, fc''))"
        using Cons.IH[OF Cons.prems, of fc']
        by (simp add: mini_batch_loop_acc[of m sc n cs c' fc'])
      also have "\<dots> = item_loop m n fc (map (scored_item m sc) (concat (c # cs)))"
        using Inr p by (simp add: item_loop_append)
      finally show ?thesis .
    qed
  qed
qed

text \<open>With an empty TM the first chunk that is scored raises.\<close>

lemma mini_batch_loop_empty_tm:
  "fst (internal_tm m) = [] \<Longrightarrow> cs \<noteq> [] \<Longrightarrow>
   mini_batch_loop m sc n cs ([], fc) =
     (if quota_reached m n fc then Inr (concat cs, fc) else Inl ValueError)"
  by (cases cs) (simp_all add: mini_batch_loop_quota score_chunk_eq)

text \<open>Any way of cutting a batch into chunks gives what the uncut batch gives.\<close>

lemma mini_batch_loop_single:
  assumes "cs \<noteq> []"
  shows "mini_batch_loop m sc n cs ([], fc) = mini_batch_loop m sc n [concat cs] ([], fc)"
proof (cases "fst (internal_tm m) = []")
  case True
  then show ?thesis
    using assms by (simp add: mini_batch_loop_empty_tm del: mini_batch_loop.simps)
next
  case False
  then show ?thesis
    by (simp add: mini_batch_loop_items del: mini_batch_loop.simps)
qed

lemma batch_matches_state_eq:
  "batch_matches_state m sc batch =
     (if fst (internal_tm m) = []
      then (if quota_reached m (length batch) 0 then Inr (np_array batch, 0) else Inl ValueError)
      else item_loop m (length batch) 0 (map (scored_item m sc) (np_array batch)))"
proof -
  obtain cs where cs: "mini_batches batch = Inr cs" "concat cs = np_array batch" "cs \<noteq> []"
    using mini_batches_concat by blast
  then show ?thesis
    by (simp add: batch_matches_state_def mini_batch_loop_empty_tm mini_batch_loop_items
             del: mini_batch_loop.simps)
qed

section \<open>The first index of the maximum\<close>

lemma argmax_from_props:
  assumes "length pre = i" "bi < i" "pre ! bi = bv" "\<forall>j<i. pre ! j \<le> bv" "\<forall>j<bi. pre ! j < bv"
  shows "argmax_from bi bv i xs < i + length xs
       \<and> (\<forall>j < i + length xs. (pre @ xs) ! j \<le> (pre @ xs) ! argmax_from bi bv i xs)
       \<and> (\<forall>j < argmax_from bi bv i xs. (pre @ xs) ! j < (pre @ xs) ! argmax_from bi bv i xs)"
  using assms
proof (induction xs arbitrary: pre bi bv i)
  case Nil
  then show ?case by simp
next
  case (Cons x xs)
  show ?case
  proof (cases "bv < x")
    case True
    have "argmax_from i x (Suc i) xs < Suc i + length xs
       \<and> (\<forall>j < Suc i + length xs. ((pre @ [x]) @ xs) ! j \<le> ((pre @ [x]) @ xs) ! argmax_from i x (Suc i) xs)
       \<and> (\<forall>j < argmax_from i x (Suc i) xs. ((pre @ [x]) @ xs) ! j < ((pre @ [x]) @ xs) ! argmax_from i x (Suc i) xs)"
    proof (rule Cons.IH)
      show "length (pre @ [x]) = Suc i" using Cons.prems by simp
      show "i < Suc i" by simp
      show "(pre @ [x]) ! i = x" using Cons.prems by (simp add: nth_append)
      show "\<forall>j<Suc i. (pre @ [x]) ! j \<le> x"
        using Cons.prems True by (auto simp: nth_append less_Suc_eq intro: order.trans less_imp_le)
      show "\<forall>j<i. (pre @ [x]) ! j < x"
        using Cons.prems True by (auto simp: nth_append intro: le_less_trans)
    qed
    with True show ?thesis by simp
  next
    case False
    have "argmax_from bi bv (Suc i) xs < Suc i + length xs
       \<and> (\<forall>j < Suc i + length xs. ((pre @ [x]) @ xs) ! j \<le> ((pre @ [x]) @ xs) ! argmax_from bi bv (Suc i) xs)
       \<and> (\<forall>j < argmax_from bi bv (Suc i) xs. ((pre @ [x]) @ xs) ! j < ((pre @ [x]) @ xs) ! argmax_from bi bv (Suc i) xs)"
    proof (rule Cons.IH)
      show "length (pre @ [x]) = Suc i" using Cons.prems by simp
      show "bi < Suc i" using Cons.prems by simp
      show "(pre @ [x]) ! bi = bv" using Cons.prems by (simp add: nth_append)
      show "\<forall>j<Suc i. (pre @ [x]) ! j \<le> bv"
        using Cons.prems False by (auto simp: nth_append less_Suc_eq)
      show "\<forall>j<bi. (pre @ [x]) ! j < bv"
        using Cons.prems by (auto simp: nth_append)
    qed
    with False show ?thesis by simp
  qed
qed

lemma np_argmax_props:
  assumes "row \<noteq> []"
  shows "np_argmax row < length row
       \<and> (\<forall>j < length row. row ! j \<le> row ! np_argmax row)
       \<and> (\<forall>j < np_argmax row. row ! j < row ! np_argmax row)"
proof -
  obtain x xs where row: "row = x # xs" using assms by (cases row) auto
  have "argmax_from 0 x 1 xs < 1 + length xs
       \<and> (\<forall>j < 1 + length xs. ([x] @ xs) ! j \<le> ([x] @ xs) ! argmax_from 0 x 1 xs)
       \<and> (\<forall>j < argmax_from 0 x 1 xs. ([x] @ xs) ! j < ([x] @ xs) ! argmax_from 0 x 1 xs)"
    by (rule argmax_from_props) simp_all
  then show ?thesis by (simp add: row np_argmax_def)
qed

section \<open>What the item loop does\<close>

lemma item_rel_simp:
  "item_rel m (s, matched, k, row) a \<longleftrightarrow>
     a = s \<or> (\<not> sublist (fuzzy_token m) s \<and> matched \<and> row ! k < 100
              \<and> k < length (snd (internal_tm m))
              \<and> a = s @ fuzzy_token m @ snd (internal_tm m) ! k)"
  by (simp add: item_rel_def)

lemma item_rel_fst: "list_all2 (item_rel m) rest (map fst rest)"
  by (induction rest) (auto simp: item_rel_simp)

lemma item_loop_rel:
  "item_loop m n fc rows = Inr (out, fc') \<Longrightarrow> list_all2 (item_rel m) rows out"
proof (induction m n fc rows arbitrary: out fc' rule: item_loop.induct)
  case (1 m n fc)
  then show ?case by simp
next
  case (2 m n fc s matched k row rest)
  then show ?case
    by (auto simp: item_rel_fst item_rel_simp split: if_splits sum.splits prod.splits)
qed

lemma augmented_differs: "\<not> sublist tok s \<Longrightarrow> s @ tok @ t \<noteq> s"
  by (cases tok) auto

lemma count_unchanged: "filter (\<lambda>(r, a). a \<noteq> fst r) (zip rest (map fst rest)) = []"
  by (induction rest) auto

lemma item_loop_count:
  "item_loop m n fc rows = Inr (out, fc') \<Longrightarrow>
   fc' = fc + length (filter (\<lambda>(r, a). a \<noteq> fst r) (zip rows out))"
proof (induction m n fc rows arbitrary: out fc' rule: item_loop.induct)
  case (1 m n fc)
  then show ?case by simp
next
  case (2 m n fc s matched k row rest)
  then show ?case
    by (auto simp: count_unchanged augmented_differs split: if_splits sum.splits prod.splits)
qed

lemma item_loop_bound:
  "item_loop m n fc rows = Inr (out, fc') \<Longrightarrow>
   fc' = fc \<or> of_nat fc' < quota_cap m n + 1"
proof (induction m n fc rows arbitrary: out fc' rule: item_loop.induct)
  case (1 m n fc)
  then show ?case by simp
next
  case (2 m n fc s matched k row rest)
  then show ?case
    by (fastforce simp: quota_reached_def split: if_splits sum.splits prod.splits)
qed

lemma item_loop_error:
  "item_loop m n fc rows = Inl e \<Longrightarrow>
   e = IndexError \<and> (\<exists>r \<in> set rows. \<not> fst (snd (snd r)) < length (snd (internal_tm m)))"
proof (induction m n fc rows rule: item_loop.induct)
  case (1 m n fc)
  then show ?case by simp
next
  case (2 m n fc s matched k row rest)
  then show ?case
    by (auto split: if_splits sum.splits prod.splits)
qed

lemma item_loop_total:
  assumes "\<forall>r \<in> set rows. fst (snd (snd r)) < length (snd (internal_tm m))"
  shows "\<exists>out fc'. item_loop m n fc rows = Inr (out, fc')"
proof (cases "item_loop m n fc rows")
  case (Inl e)
  with assms item_loop_error[OF Inl] show ?thesis by blast
next
  case (Inr p)
  then show ?thesis by (cases p) simp
qed


lemma item_rel_same: "list_all2 (\<lambda>s a. item_rel m (scored_item m sc s) a) items items"
  by (rule list_all2_refl) (simp add: scored_item_def item_rel_simp)

text \<open>The output of the function against the items of the array, one by one.\<close>

lemma state_rel:
  assumes "batch_matches_state m sc batch = Inr (out, fc)"
  shows "list_all2 (\<lambda>s a. item_rel m (scored_item m sc s) a) (np_array batch) out"
proof (cases "fst (internal_tm m) = []")
  case True
  with assms have "out = np_array batch"
    by (simp add: batch_matches_state_eq split: if_splits)
  then show ?thesis by (simp add: item_rel_same)
next
  case False
  with assms have
    "item_loop m (length batch) 0 (map (scored_item m sc) (np_array batch)) = Inr (out, fc)"
    by (simp add: batch_matches_state_eq)
  then have "list_all2 (item_rel m) (map (scored_item m sc) (np_array batch)) out"
    by (rule item_loop_rel)
  then show ?thesis by (simp add: list_all2_map1)
qed

lemma filter_zip_unchanged: "filter (\<lambda>(s, a). a \<noteq> s) (zip items items) = []"
  by (induction items) simp_all

lemma count_scored:
  "length (filter (\<lambda>(r, a). a \<noteq> fst r) (zip (map (scored_item m sc) items) out))
   = length (filter (\<lambda>(s, a). a \<noteq> s) (zip items out))"
proof (induction items arbitrary: out)
  case Nil
  then show ?case by simp
next
  case (Cons s items)
  then show ?case by (cases out) (simp_all add: scored_item_def)
qed

lemma state_count:
  assumes "batch_matches_state m sc batch = Inr (out, fc)"
  shows "fc = length (filter (\<lambda>(s, a). a \<noteq> s) (zip (np_array batch) out))"
proof (cases "fst (internal_tm m) = []")
  case True
  with assms have "out = np_array batch" "fc = 0"
    by (simp_all add: batch_matches_state_eq split: if_splits)
  then show ?thesis by (simp add: filter_zip_unchanged)
next
  case False
  with assms have
    "item_loop m (length batch) 0 (map (scored_item m sc) (np_array batch)) = Inr (out, fc)"
    by (simp add: batch_matches_state_eq)
  from item_loop_count[OF this] show ?thesis by (simp add: count_scored)
qed

lemma state_bound:
  assumes "batch_matches_state m sc batch = Inr (out, fc)"
  shows "fc = 0 \<or> of_nat fc < quota_cap m (length batch) + 1"
proof (cases "fst (internal_tm m) = []")
  case True
  with assms show ?thesis
    by (simp add: batch_matches_state_eq split: if_splits)
next
  case False
  with assms have
    "item_loop m (length batch) 0 (map (scored_item m sc) (np_array batch)) = Inr (out, fc)"
    by (simp add: batch_matches_state_eq)
  from item_loop_bound[OF this] show ?thesis by simp
qed

lemma np_any_threshold:
  assumes "np_any (tm_row m sc s)"
  shows "\<exists>j < length (fst (internal_tm m)). threshold m \<le> sc s (fst (internal_tm m) ! j)"
proof -
  from assms obtain j where j: "j < length (fst (internal_tm m))"
      "cdist_cell sc (threshold m) s (fst (internal_tm m) ! j) \<noteq> 0"
    by (auto simp: np_any_def tm_row_def in_set_conv_nth)
  then have "\<not> sc s (fst (internal_tm m) ! j) < threshold m"
    by (auto simp: cdist_cell_def split: if_splits)
  with j(1) show ?thesis by (auto simp: not_less)
qed

lemma np_any_nonempty: "np_any row \<Longrightarrow> row \<noteq> []"
  by (auto simp: np_any_def)

text \<open>
  With a TM that has an entry, and as many targets as sources, the function returns:
  a list as long as the batch, each item of which begins with the item of the array at
  the same index.
\<close>

lemma batch_matches_state_returns:
  assumes "fst (internal_tm m) \<noteq> []"
    and "length (fst (internal_tm m)) = length (snd (internal_tm m))"
  shows "\<exists>out fc. batch_matches_state m sc batch = Inr (out, fc)"
proof -
  have "tm_row m sc s \<noteq> []" for s using assms(1) by (simp add: tm_row_def)
  then have "np_argmax (tm_row m sc s) < length (snd (internal_tm m))" for s
    using np_argmax_props[of "tm_row m sc s"] assms(2) by (simp add: tm_row_def)
  then have "\<forall>r \<in> set (map (scored_item m sc) (np_array batch)).
               fst (snd (snd r)) < length (snd (internal_tm m))"
    by (auto simp: scored_item_def)
  from item_loop_total[OF this, of "length batch" 0] assms(1) show ?thesis
    by (simp add: batch_matches_state_eq)
qed

lemma get_batch_matches_returns:
  assumes "fst (internal_tm m) \<noteq> []"
    and "length (fst (internal_tm m)) = length (snd (internal_tm m))"
  shows "\<exists>out. get_batch_matches m sc batch = Inr out \<and> length out = length batch
             \<and> (\<forall>i < length batch. prefix (np_str (batch ! i)) (out ! i))"
proof -
  from batch_matches_state_returns[OF assms] obtain out fc where
    st: "batch_matches_state m sc batch = Inr (out, fc)"
    by blast
  have rel: "list_all2 (\<lambda>s a. item_rel m (scored_item m sc s) a) (np_array batch) out"
    by (rule state_rel[OF st])
  then have len: "length out = length batch"
    using list_all2_lengthD[OF rel] by (simp add: length_np_array)
  moreover have "\<forall>i < length batch. prefix (np_str (batch ! i)) (out ! i)"
    using rel
    by (auto simp: list_all2_conv_all_nth scored_item_def item_rel_simp np_array_def)
  ultimately show ?thesis using st by (simp add: get_batch_matches_def)
qed

lemma get_batch_matches_empty_tm:
  "fst (internal_tm m) = [] \<Longrightarrow>
   get_batch_matches m sc batch =
     (if quota_reached m (length batch) 0 then Inr (np_array batch) else Inl ValueError)"
  by (simp add: get_batch_matches_def batch_matches_state_eq)

text \<open>
  Whenever the function returns, an item of the array that contains the marker is in
  the output as the array gave it, and only changed items without a marker are counted.
\<close>

lemma marked_items_kept:
  assumes "batch_matches_state m sc batch = Inr (augmented, fuzzy_count)"
  shows "(\<forall>i < length batch. sublist (fuzzy_token m) (np_str (batch ! i)) \<longrightarrow>
            augmented ! i = np_str (batch ! i))
       \<and> fuzzy_count = length (filter (\<lambda>(s, a). \<not> sublist (fuzzy_token m) s \<and> a \<noteq> s)
                                   (zip (np_array batch) augmented))"
proof -
  have rel: "list_all2 (\<lambda>s a. item_rel m (scored_item m sc s) a) (np_array batch) augmented"
    by (rule state_rel[OF assms])
  have unchanged: "\<forall>i < length batch. sublist (fuzzy_token m) (np_str (batch ! i)) \<longrightarrow>
                     augmented ! i = np_str (batch ! i)"
    using rel
    by (auto simp: list_all2_conv_all_nth scored_item_def item_rel_simp np_array_def)
  have "\<forall>p \<in> set (zip (np_array batch) augmented). item_rel m (scored_item m sc (fst p)) (snd p)"
    using rel by (auto simp: list_all2_iff)
  then have "filter (\<lambda>(s, a). \<not> sublist (fuzzy_token m) s \<and> a \<noteq> s) (zip (np_array batch) augmented)
           = filter (\<lambda>(s, a). a \<noteq> s) (zip (np_array batch) augmented)"
    by (intro filter_cong refl) (auto simp: scored_item_def item_rel_simp)
  with state_count[OF assms] unchanged show ?thesis
    by simp
qed

section \<open>The selection over the whole batch\<close>







section \<open>Loading the translation memory\<close>

text \<open>Joining the fields of a line with the delimiter gives the line back, and no field
  contains the delimiter.\<close>

lemma split_on_nonempty: "split_on d ds cur s \<noteq> []"
  by (induction d ds cur s rule: split_on.induct) auto

lemma py_join_Cons: "ts \<noteq> [] \<Longrightarrow> py_join sep (t # ts) = t @ sep @ py_join sep ts"
  by (cases ts) simp_all

lemma join_split_on: "py_join (d # ds) (split_on d ds cur s) = cur @ s"
proof (induction d ds cur s rule: split_on.induct)
  case (1 d ds cur)
  then show ?case by simp
next
  case (2 d ds cur c cs)
  show ?case
  proof (cases "prefix (d # ds) (c # cs)")
    case True
    then have eq: "c # cs = (d # ds) @ drop (length ds) cs"
      by (auto simp: prefix_def)
    have "py_join (d # ds) (split_on d ds cur (c # cs))
            = cur @ (d # ds) @ py_join (d # ds) (split_on d ds [] (drop (length ds) cs))"
    proof -
      have "split_on d ds cur (c # cs) = cur # split_on d ds [] (drop (length ds) cs)"
        using True by auto
      then show ?thesis
        by (simp add: py_join_Cons split_on_nonempty del: py_join.simps)
    qed
    also have "\<dots> = cur @ (d # ds) @ drop (length ds) cs"
      using 2(1)[OF True] by simp
    also have "\<dots> = cur @ c # cs" using eq by simp
    finally show ?thesis .
  next
    case False
    then have "split_on d ds cur (c # cs) = split_on d ds (cur @ [c]) cs" by auto
    with 2(2)[OF False] show ?thesis by simp
  qed
qed

lemma fields_without_separator:
  assumes "\<forall>u v. cur = u @ v \<and> v \<noteq> [] \<longrightarrow> \<not> prefix (d # ds) (v @ s)"
    and "f \<in> set (split_on d ds cur s)"
  shows "\<not> sublist (d # ds) f"
  using assms
proof (induction d ds cur s rule: split_on.induct)
  case (1 d ds cur)
  then have f: "f = cur" by simp
  show ?case
  proof
    assume "sublist (d # ds) f"
    then obtain u w where "cur = u @ (d # ds) @ w"
      by (auto simp: sublist_def f)
    with 1(1) have "\<not> prefix (d # ds) (((d # ds) @ w) @ [])" by blast
    then show False by simp
  qed
next
  case (2 d ds cur c cs)
  have cur_ok: "\<not> sublist (d # ds) cur"
  proof
    assume "sublist (d # ds) cur"
    then obtain u w where "cur = u @ (d # ds) @ w"
      by (auto simp: sublist_def)
    with 2(3) have "\<not> prefix (d # ds) (((d # ds) @ w) @ c # cs)" by blast
    then show False by simp
  qed
  show ?case
  proof (cases "prefix (d # ds) (c # cs)")
    case True
    then have "split_on d ds cur (c # cs) = cur # split_on d ds [] (drop (length ds) cs)"
      by auto
    with 2(4) have "f = cur \<or> f \<in> set (split_on d ds [] (drop (length ds) cs))"
      by simp
    then show ?thesis
    proof
      assume "f = cur"
      with cur_ok show ?thesis by simp
    next
      assume "f \<in> set (split_on d ds [] (drop (length ds) cs))"
      with 2(1)[OF True] show ?thesis by simp
    qed
  next
    case False
    then have "split_on d ds cur (c # cs) = split_on d ds (cur @ [c]) cs" by auto
    with 2(4) have mem: "f \<in> set (split_on d ds (cur @ [c]) cs)" by simp
    have inv: "\<forall>u v. cur @ [c] = u @ v \<and> v \<noteq> [] \<longrightarrow> \<not> prefix (d # ds) (v @ cs)"
    proof (intro allI impI)
      fix u v
      assume a: "cur @ [c] = u @ v \<and> v \<noteq> []"
      then obtain v' where v: "v = v' @ [c]" "cur = u @ v'"
        by (metis append_butlast_last_id butlast_append butlast_snoc last_appendR last_snoc)
      show "\<not> prefix (d # ds) (v @ cs)"
      proof (cases "v' = []")
        case True
        with False v show ?thesis by simp
      next
        case False
        with 2(3) v(2) have "\<not> prefix (d # ds) (v' @ c # cs)" by blast
        then show ?thesis by (simp add: v(1))
      qed
    qed
    from 2(2)[OF False inv mem] show ?thesis .
  qed
qed

lemma split_fields_no_delimiter:
  "f \<in> set (split_on d ds [] s) \<Longrightarrow> \<not> sublist (d # ds) f"
  by (rule fields_without_separator) simp_all

lemma length_two: "length fs = 2 \<longleftrightarrow> (\<exists>a b. fs = [a, b])"
proof
  assume "length fs = 2"
  then show "\<exists>a b. fs = [a, b]"
    by (cases fs; cases "tl fs") auto
qed auto

lemma create_tm_loop_step_two:
  "py_split pair delim = Inr [source, target] \<Longrightarrow>
   create_tm_loop delim mn mx (pair # pairs) (S, T) =
     (if int (length source) < mn \<or> int (length source) > mx
      then create_tm_loop delim mn mx pairs (S, T)
      else create_tm_loop delim mn mx pairs (S @ [strip source], T @ [strip target]))"
  by simp

lemma create_tm_loop_step_bad:
  "py_split pair delim = Inr fs \<Longrightarrow> length fs \<noteq> 2 \<Longrightarrow>
   create_tm_loop delim mn mx (pair # pairs) (S, T) = Inl ValueError"
  by (cases fs; cases "tl fs"; cases "tl (tl fs)") auto

lemma create_tm_loop_step_err:
  "py_split pair delim = Inl e \<Longrightarrow>
   create_tm_loop delim mn mx (pair # pairs) (S, T) = Inl e"
  by simp


lemma create_tm_loop_error:
  "create_tm_loop (d # ds) mn mx pairs acc = Inl e \<Longrightarrow>
   e = ValueError \<and> (\<exists>l \<in> set pairs. length (split_on d ds [] l) \<noteq> 2)"
proof (induction pairs arbitrary: acc)
  case Nil
  then show ?case by (cases acc) simp
next
  case (Cons pair pairs)
  obtain S T where acc: "acc = (S, T)" by (cases acc)
  have sp: "py_split pair (d # ds) = Inr (split_on d ds [] pair)"
    by (simp add: py_split_def)
  show ?case
  proof (cases "length (split_on d ds [] pair) = 2")
    case False
    with Cons.prems sp show ?thesis
      by (simp add: acc create_tm_loop_step_bad del: create_tm_loop.simps)
  next
    case True
    then obtain source target where st: "split_on d ds [] pair = [source, target]"
      by (auto simp: length_two)
    from Cons.prems have "\<exists>acc'. create_tm_loop (d # ds) mn mx pairs acc' = Inl e"
      unfolding acc create_tm_loop_step_two[OF sp[unfolded st]]
      by (auto split: if_splits)
    with Cons.IH show ?thesis by auto
  qed
qed

lemma create_tm_loop_bad_line:
  "\<exists>l \<in> set pairs. length (split_on d ds [] l) \<noteq> 2 \<Longrightarrow>
   create_tm_loop (d # ds) mn mx pairs acc = Inl ValueError"
proof (induction pairs arbitrary: acc)
  case Nil
  then show ?case by simp
next
  case (Cons pair pairs)
  obtain S T where acc: "acc = (S, T)" by (cases acc)
  have sp: "py_split pair (d # ds) = Inr (split_on d ds [] pair)"
    by (simp add: py_split_def)
  show ?case
  proof (cases "length (split_on d ds [] pair) = 2")
    case False
    with sp show ?thesis
      by (simp add: acc create_tm_loop_step_bad del: create_tm_loop.simps)
  next
    case True
    then obtain source target where st: "split_on d ds [] pair = [source, target]"
      by (auto simp: length_two)
    from True Cons.prems have "\<exists>l \<in> set pairs. length (split_on d ds [] l) \<noteq> 2"
      by auto
    from Cons.IH[OF this] show ?thesis
      unfolding acc create_tm_loop_step_two[OF sp[unfolded st]] by simp
  qed
qed

lemma split_on_single_char:
  "length (split_on d [] cur s) = Suc (count_list s d)"
  by (induction s arbitrary: cur) auto


lemma create_tm_loop_fields:
  assumes "create_tm_loop delim mn mx (pair # pairs) (S, T) = Inr r"
  shows "\<exists>source target. py_split pair delim = Inr [source, target]"
proof (cases "py_split pair delim")
  case (Inl e)
  from assms show ?thesis
    unfolding create_tm_loop_step_err[OF Inl] by simp
next
  case (Inr fs)
  show ?thesis
  proof (cases "length fs = 2")
    case True
    with Inr show ?thesis by (auto simp: length_two)
  next
    case False
    from assms show ?thesis
      unfolding create_tm_loop_step_bad[OF Inr False] by simp
  qed
qed

lemma create_tm_loop_result:
  "create_tm_loop delim mn mx pairs (S, T) = Inr (S', T') \<Longrightarrow>
   \<exists>fields. map (\<lambda>l. py_split l delim) pairs = map (\<lambda>(source, target). Inr [source, target]) fields
      \<and> S' = S @ map (strip \<circ> fst)
                   (filter (\<lambda>(source, target). mn \<le> int (length source) \<and> int (length source) \<le> mx) fields)
      \<and> T' = T @ map (strip \<circ> snd)
                   (filter (\<lambda>(source, target). mn \<le> int (length source) \<and> int (length source) \<le> mx) fields)"
proof (induction pairs arbitrary: S T)
  case Nil
  then show ?case by simp
next
  case (Cons pair pairs)
  from create_tm_loop_fields[OF Cons.prems]
  obtain source target where sp: "py_split pair delim = Inr [source, target]"
    by blast
  note step = create_tm_loop_step_two[OF sp, of mn mx pairs S T]
  let ?keep = "\<lambda>(source, target). mn \<le> int (length source) \<and> int (length source) \<le> mx"
  show ?case
  proof (cases "int (length source) < mn \<or> int (length source) > mx")
    case True
    with Cons.prems step have "create_tm_loop delim mn mx pairs (S, T) = Inr (S', T')"
      by (simp del: create_tm_loop.simps)
    from Cons.IH[OF this] obtain fields where
      f: "map (\<lambda>l. py_split l delim) pairs = map (\<lambda>(source, target). Inr [source, target]) fields"
         "S' = S @ map (strip \<circ> fst) (filter ?keep fields)"
         "T' = T @ map (strip \<circ> snd) (filter ?keep fields)"
      by blast
    have m: "map (\<lambda>l. py_split l delim) (pair # pairs)
            = map (\<lambda>(source, target). Inr [source, target]) ((source, target) # fields)"
      using sp f(1) by simp
    have k: "filter ?keep ((source, target) # fields) = filter ?keep fields"
      using True by auto
    show ?thesis
      apply (rule exI[of _ "(source, target) # fields"])
      unfolding k using m f(2,3) by blast
  next
    case False
    with Cons.prems step have
      "create_tm_loop delim mn mx pairs (S @ [strip source], T @ [strip target]) = Inr (S', T')"
      by (simp del: create_tm_loop.simps)
    from Cons.IH[OF this] obtain fields where
      f: "map (\<lambda>l. py_split l delim) pairs = map (\<lambda>(source, target). Inr [source, target]) fields"
         "S' = (S @ [strip source]) @ map (strip \<circ> fst) (filter ?keep fields)"
         "T' = (T @ [strip target]) @ map (strip \<circ> snd) (filter ?keep fields)"
      by blast
    have m: "map (\<lambda>l. py_split l delim) (pair # pairs)
            = map (\<lambda>(source, target). Inr [source, target]) ((source, target) # fields)"
      using sp f(1) by simp
    have k: "filter ?keep ((source, target) # fields) = (source, target) # filter ?keep fields"
      using False by auto
    show ?thesis
      apply (rule exI[of _ "(source, target) # fields"])
      unfolding k using m f(2,3) by simp
  qed
qed

section \<open>The adapter\<close>

lemma src_segments_rel:
  "src_segments t batch = Inr segs \<Longrightarrow>
   list_all2 (\<lambda>b seg. \<exists>toks. fst b ''src'' = Some toks
                \<and> seg = (if int (length (join_space toks)) > fuzzymatch_min_length t
                             \<and> int (length (join_space toks)) < fuzzymatch_max_length t
                          then join_space toks else [])) batch segs"
proof (induction batch arbitrary: segs)
  case Nil
  then show ?case by simp
next
  case (Cons b batch)
  obtain ex x y where b: "b = (ex, x, y)" by (cases b)
  from Cons.prems obtain toks segs' where
    "ex ''src'' = Some toks" "src_segments t batch = Inr segs'"
    "segs = (if int (length (join_space toks)) > fuzzymatch_min_length t
                \<and> int (length (join_space toks)) < fuzzymatch_max_length t
             then join_space toks else []) # segs'"
    by (auto simp: b split: option.splits sum.splits)
  with Cons.IH show ?case by (simp add: b)
qed

lemma to_uint8_simps: "to_uint8 0 = 0" "to_uint8 100 = 100"
  by (simp_all add: to_uint8_def)

lemma sentinel_row:
  assumes "\<forall>c \<in> set (fst (internal_tm m)). sc [] c = 0 \<or> sc [] c = 100"
  shows "\<not> (np_any (tm_row m sc []) \<and> tm_row m sc [] ! np_argmax (tm_row m sc []) < 100)"
proof
  assume a: "np_any (tm_row m sc []) \<and> tm_row m sc [] ! np_argmax (tm_row m sc []) < 100"
  let ?row = "tm_row m sc []"
  from a obtain j where j: "j < length ?row" "?row ! j \<noteq> 0"
    by (auto simp: np_any_def in_set_conv_nth)
  have "fst (internal_tm m) ! j \<in> set (fst (internal_tm m))"
    using j(1) by (simp add: tm_row_def)
  with assms have "sc [] (fst (internal_tm m) ! j) = 0 \<or> sc [] (fst (internal_tm m) ! j) = 100"
    by blast
  then have "?row ! j = 0 \<or> ?row ! j = 100"
    using j(1) by (auto simp: tm_row_def cdist_cell_def to_uint8_simps)
  with j(2) have "?row ! j = 100" by simp
  moreover have "?row \<noteq> []" using j(1) by auto
  from np_argmax_props[OF this] j(1) have "?row ! j \<le> ?row ! np_argmax ?row"
    by blast
  ultimately show False using a by simp
qed

lemma sentinel_kept:
  assumes "get_batch_matches m sc segs = Inr fuzzied"
    and "i < length segs" and "segs ! i = []"
    and "\<forall>c \<in> set (fst (internal_tm m)). sc [] c = 0 \<or> sc [] c = 100"
  shows "fuzzied ! i = []"
proof -
  from assms(1) obtain fc where st: "batch_matches_state m sc segs = Inr (fuzzied, fc)"
    by (auto simp: get_batch_matches_def split: sum.splits prod.splits)
  have "np_array segs ! i = []"
    using assms(2,3) by (simp add: np_array_def np_str_def)
  moreover have "item_rel m (scored_item m sc (np_array segs ! i)) (fuzzied ! i)"
    using state_rel[OF st] assms(2) by (simp add: list_all2_conv_all_nth length_np_array)
  ultimately have "item_rel m (scored_item m sc []) (fuzzied ! i)"
    by simp
  with sentinel_row[of m sc, OF assms(4)] show ?thesis
    by (auto simp: scored_item_def item_rel_simp)
qed

lemma write_back_nth:
  assumes "i < length batch" and "length fuzzied_src = length batch"
  shows "write_back batch fuzzied_src ! i =
     (case batch ! i of (example, x, y) \<Rightarrow>
        if fuzzied_src ! i \<noteq> [] then (example(''src'' \<mapsto> split_on CHR '' '' [] [] (fuzzied_src ! i)), x, y)
        else (example, x, y))"
  using assms by (simp add: write_back_def split: prod.splits)

lemma fuzz_ratio_empty_query: "fuzz_ratio [] c = (if c = [] then 100 else 0)"
  by (simp add: fuzz_ratio_def)

lemma src_segments_total:
  "\<forall>b \<in> set batch. fst b ''src'' \<noteq> None \<Longrightarrow> \<exists>segs. src_segments t batch = Inr segs"
proof (induction batch)
  case Nil
  then show ?case by simp
next
  case (Cons b batch)
  obtain ex x y where b: "b = (ex, x, y)" by (cases b)
  from Cons show ?case by (auto simp: b)
qed

lemma batch_apply_returns:
  assumes "\<forall>b \<in> set batch. fst b ''src'' \<noteq> None"
    and "fst (internal_tm (matcher t)) \<noteq> []"
    and "length (fst (internal_tm (matcher t))) = length (snd (internal_tm (matcher t)))"
  shows "\<exists>out. batch_apply t sc batch = Inr out \<and> length out = length batch"
proof -
  from src_segments_total[OF assms(1)] obtain segs where segs: "src_segments t batch = Inr segs"
    by blast
  from get_batch_matches_returns[OF assms(2,3), of sc segs] obtain fz where
    fz: "get_batch_matches (matcher t) sc segs = Inr fz" "length fz = length segs"
    by blast
  have "length segs = length batch"
    using src_segments_rel[OF segs] by (simp add: list_all2_lengthD)
  with segs fz show ?thesis
    by (simp add: batch_apply_def write_back_def)
qed

section \<open>Worked examples\<close>

text \<open>
  The matcher of the examples has one TM entry, \<open>hello worlX\<close> with the target
  \<open>bonjour mondeX\<close>, the threshold 70 and the marker \<open>[F]\<close>; the scorer gives
  \<open>hello world\<close> against that entry about 90.9, which is stored as 91.
\<close>

lemma example_half_ratio:
  "batch_matches_state
     \<lparr>threshold = 70, corpus_ratio = 1 / 2, tm_delimiter = [CHR 0x09], fuzzy_token = ''[F]'',
      tm_unit_min_length = 4, tm_unit_max_length = 70,
      internal_tm = ([''hello worlX''], [''bonjour mondeX''])\<rparr>
     fuzz_ratio [''hello world'', ''hello worle'', ''hello worlf'']
   = Inr ([''hello world[F]bonjour mondeX'', ''hello worle[F]bonjour mondeX'', ''hello worlf''], 2)"
  by code_simp

lemma example_marked_item:
  "batch_matches_state
     \<lparr>threshold = 70, corpus_ratio = 1, tm_delimiter = [CHR 0x09], fuzzy_token = ''[F]'',
      tm_unit_min_length = 4, tm_unit_max_length = 70,
      internal_tm = ([''hello worlX''], [''bonjour mondeX''])\<rparr>
     fuzz_ratio [''hello worle[F]bar'', ''hello world'']
   = Inr ([''hello worle[F]bar'', ''hello world[F]bonjour mondeX''], 1)"
  by code_simp

lemma example_marked_item_result:
  "get_batch_matches
     \<lparr>threshold = 70, corpus_ratio = 1, tm_delimiter = [CHR 0x09], fuzzy_token = ''[F]'',
      tm_unit_min_length = 4, tm_unit_max_length = 70,
      internal_tm = ([''hello worlX''], [''bonjour mondeX''])\<rparr>
     fuzz_ratio [''hello worle[F]bar'', ''hello world'']
   = Inr [''hello worle[F]bar'', ''hello world[F]bonjour mondeX'']"
  by (simp add: get_batch_matches_def example_marked_item)

lemma example_tm:
  "create_tm [CHR 0x09] 4 70
     [''hello worlX'' @ [CHR 0x09] @ ''bonjour mondeX'' @ [CHR 0x0A],
      ''ab'' @ [CHR 0x09] @ ''cd'' @ [CHR 0x0A]]
   = Inr ([''hello worlX''], [''bonjour mondeX''])"
  by code_simp

lemma example_sentinel_matches:
  "get_batch_matches
     \<lparr>threshold = 70, corpus_ratio = 1, tm_delimiter = [CHR 0x09], fuzzy_token = ''[F]'',
      tm_unit_min_length = 4, tm_unit_max_length = 70,
      internal_tm = ([''hello worlX''], [''bonjour mondeX''])\<rparr>
     fuzz_ratio [[], ''hello world'']
   = Inr [[], ''hello world[F]bonjour mondeX'']"
  by code_simp

lemma example_batch_apply:
  "batch_apply
     \<lparr>fuzzymatch_min_length = 4, fuzzymatch_max_length = 70,
      matcher = \<lparr>threshold = 70, corpus_ratio = 1, tm_delimiter = [CHR 0x09],
                 fuzzy_token = ''[F]'', tm_unit_min_length = 4, tm_unit_max_length = 70,
                 internal_tm = ([''hello worlX''], [''bonjour mondeX''])\<rparr>\<rparr>
     fuzz_ratio
     [([''src'' \<mapsto> [''hi'']], (), ()), ([''src'' \<mapsto> [''hello'', ''world'']], (), ())]
   = Inr [([''src'' \<mapsto> [''hi'']], (), ()),
          ([''src'' \<mapsto> [''hello'', ''world[F]bonjour'', ''mondeX'']], (), ())]"
  by (simp add: batch_apply_def example_sentinel_matches write_back_def)

text \<open>
  With 25 matching items and the ratio 0.28 the float product is \<open>7 + 2 ^ - 50\<close>, above 7,
  and eight items are augmented.
\<close>

lemma example_rounded_product:
  "batch_matches_state
     \<lparr>threshold = 70, corpus_ratio = 7 / 25, tm_delimiter = [CHR 0x09], fuzzy_token = ''[F]'',
      tm_unit_min_length = 4, tm_unit_max_length = 70,
      internal_tm = ([''hello worlX''], [''bonjour mondeX''])\<rparr>
     fuzz_ratio (replicate 25 ''hello world'')
   = Inr (replicate 8 ''hello world[F]bonjour mondeX'' @ replicate 17 ''hello world'', 8)"
  by code_simp

lemma example_rounded_cap:
  "quota_cap
     \<lparr>threshold = 70, corpus_ratio = 7 / 25, tm_delimiter = [CHR 0x09], fuzzy_token = ''[F]'',
      tm_unit_min_length = 4, tm_unit_max_length = 70,
      internal_tm = ([''hello worlX''], [''bonjour mondeX''])\<rparr> 25 = 7 + 1 / 2 ^ 50"
  by (simp add: quota_cap_def float_products)

lemma example_half_cap:
  "quota_cap
     \<lparr>threshold = 70, corpus_ratio = 1 / 2, tm_delimiter = [CHR 0x09], fuzzy_token = ''[F]'',
      tm_unit_min_length = 4, tm_unit_max_length = 70,
      internal_tm = ([''hello worlX''], [''bonjour mondeX''])\<rparr>
     (length [''hello world'', ''hello worle'', ''hello worlf'']) = 3 / 2"
proof -
  have "length [''hello world'', ''hello worle'', ''hello worlf''] = 3" by simp
  then show ?thesis
    by (simp only: quota_cap_def float_products fuzzy_matcher.simps of_nat_numeral)
qed



section \<open>The properties\<close>

text \<open>
  C1, as amended. The cap of the code is the float product \<^verbatim>\<open>len(batch) * ratio\<close>,
  rounded to a double (\<open>quota_cap\<close>); it can lie above the exact product. The code tests
  \<open>fuzzy_count >= cap\<close> before each augmentation, so for a ratio that is not negative the
  count stays below \<open>cap + 1\<close>: it never exceeds the ceiling of that float. The count is
  the number of items of the output that differ from the items of the array.
\<close>

theorem quota_bound_ceiling:
  assumes "batch_matches_state m sc batch = Inr (augmented, fuzzy_count)"
    and "0 \<le> corpus_ratio m"
  shows "quota_cap m (length batch)
           = float_mul (to_double (of_nat (length batch))) (to_double (corpus_ratio m))
       \<and> fuzzy_count = length (filter (\<lambda>(s, a). a \<noteq> s) (zip (np_array batch) augmented))
       \<and> of_nat fuzzy_count < quota_cap m (length batch) + 1
       \<and> int fuzzy_count \<le> \<lceil>quota_cap m (length batch)\<rceil>"
proof -
  let ?cap = "quota_cap m (length batch)"
  have nonneg: "0 \<le> ?cap" using assms(2) by (rule quota_cap_nonneg)
  have lt: "of_nat fuzzy_count < ?cap + 1"
    using state_bound[OF assms(1)] nonneg by auto
  have "of_int (int fuzzy_count - 1) < ?cap" using lt by simp
  then have "int fuzzy_count - 1 < \<lceil>?cap\<rceil>" by (simp add: less_ceiling_iff)
  then have "int fuzzy_count \<le> \<lceil>?cap\<rceil>" by simp
  with lt state_count[OF assms(1)] show ?thesis by (simp add: quota_cap_def)
qed

theorem quota_bound_ceiling_witness:
  "(8::nat) = length (filter (\<lambda>(s, a). a \<noteq> s)
       (zip (np_array (replicate 25 ''hello world''))
            (replicate 8 ''hello world[F]bonjour mondeX'' @ replicate 17 ''hello world'')))
   \<and> (of_nat (8::nat) :: rat) < (7 + 1 / 2 ^ 50) + 1
   \<and> int 8 \<le> \<lceil>7 + 1 / 2 ^ 50 :: rat\<rceil>"
proof -
  have len: "length (replicate 25 ''hello world'') = 25" by simp
  note t = quota_bound_ceiling[OF example_rounded_product, unfolded len example_rounded_cap]
  have "0 \<le> corpus_ratio
     \<lparr>threshold = 70, corpus_ratio = 7 / 25, tm_delimiter = [CHR 0x09], fuzzy_token = ''[F]'',
      tm_unit_min_length = 4, tm_unit_max_length = 70,
      internal_tm = ([''hello worlX''], [''bonjour mondeX''])\<rparr>"
    by simp
  from t[OF this] show ?thesis by blast
qed

text \<open>
  C1 as stated fails: with three items that all match and the ratio 1/2 the cap is 3/2,
  also as a float, and two items are augmented.
\<close>

theorem quota_bound_counterexample:
  "batch_matches_state
     \<lparr>threshold = 70, corpus_ratio = 1 / 2, tm_delimiter = [CHR 0x09], fuzzy_token = ''[F]'',
      tm_unit_min_length = 4, tm_unit_max_length = 70,
      internal_tm = ([''hello worlX''], [''bonjour mondeX''])\<rparr>
     fuzz_ratio [''hello world'', ''hello worle'', ''hello worlf'']
   = Inr ([''hello world[F]bonjour mondeX'', ''hello worle[F]bonjour mondeX'', ''hello worlf''], 2)
   \<and> quota_cap
       \<lparr>threshold = 70, corpus_ratio = 1 / 2, tm_delimiter = [CHR 0x09], fuzzy_token = ''[F]'',
      tm_unit_min_length = 4, tm_unit_max_length = 70,
      internal_tm = ([''hello worlX''], [''bonjour mondeX''])\<rparr>
       (length [''hello world'', ''hello worle'', ''hello worlf'']) = 3 / 2
   \<and> \<not> (of_nat (2::nat) \<le> (3 / 2 :: rat))"
  using example_half_ratio example_half_cap by simp

text \<open>
  C2. The claim says that the augmenter returns a list as long as its batch for every
  batch. With a TM that has an entry, and targets aligned with the sources, it does
  (\<open>get_batch_matches_returns\<close>). A matcher built from an empty TM file has no entry:
  then \<^verbatim>\<open>np.argmax\<close> raises on the first chunk that is scored and nothing is returned.
\<close>

theorem empty_tm_raises:
  "FuzzyMatcher [] (1 / 10) 70 [CHR 0x09] ''[F]'' 4 70
     = Inr \<lparr>threshold = 70, corpus_ratio = 1 / 10, tm_delimiter = [CHR 0x09], fuzzy_token = ''[F]'',
            tm_unit_min_length = 4, tm_unit_max_length = 70, internal_tm = ([], [])\<rparr>
   \<and> get_batch_matches
       \<lparr>threshold = 70, corpus_ratio = 1 / 10, tm_delimiter = [CHR 0x09], fuzzy_token = ''[F]'',
        tm_unit_min_length = 4, tm_unit_max_length = 70, internal_tm = ([], [])\<rparr>
       fuzz_ratio [''hello world'']
     = Inl ValueError"
  by code_simp

text \<open>
  C3. The claim says that no chunk has more than \<open>chunk_size\<close> items. The number of
  sections is \<^verbatim>\<open>len(batch) // chunk_size\<close>, rounded down, so a batch of 10001 items is
  one chunk of 10001 items.
\<close>

theorem chunk_larger_than_chunk_size:
  "mini_batches (replicate 10001 ''hello world'') = Inr [replicate 10001 ''hello world'']
   \<and> chunk_size < length (replicate 10001 ''hello world'')"
proof -
  have "np_str ''hello world'' = ''hello world''"
    by (rule np_str_plain) simp_all
  then have "np_array (replicate 10001 ''hello world'') = replicate 10001 ''hello world''"
    by (simp add: np_array_replicate)
  moreover have "mini_batches (replicate 10001 ''hello world'')
                   = Inr [np_array (replicate 10001 ''hello world'')]"
    by (rule mini_batches_below_double) (simp_all add: chunk_size_def)
  ultimately show ?thesis by (simp add: chunk_size_def)
qed

text \<open>
  C4. The claim says that the configuration has a minimum length with default 4 and a
  maximum length with default 70, and that parsing reads both. The class declares
  \<^verbatim>\<open>fuzzymatch_min_length\<close> twice and \<^verbatim>\<open>fuzzymatch_max_length\<close> never: the minimum
  has the default 70, there is no maximum, and \<^verbatim>\<open>_parse_config\<close> raises
  \<^verbatim>\<open>AttributeError\<close>.
\<close>

theorem max_length_never_declared:
  "FuzzyMatchConfig_defaults ''fuzzymatch_min_length'' = Some (PInt 70)
   \<and> FuzzyMatchConfig_defaults ''fuzzymatch_max_length'' = None
   \<and> parse_config FuzzyMatchConfig_defaults Map.empty = Inl AttributeError"
  by (simp add: parse_config_def FuzzyMatchConfig_defaults_def class_namespace_def
        FuzzyMatchConfig_body_def)

text \<open>
  C5, as amended. A line is split at every occurrence of the delimiter, not at the
  first one only: the fields joined with the delimiter are the line, and no field
  contains the delimiter. Loading raises \<^verbatim>\<open>ValueError\<close>, and returns no TM, exactly when some
  line does not split into two fields; it raises nothing else. For a delimiter of one
  character a line has one field more than it has delimiters, so the lines that load
  are those with exactly one delimiter.
\<close>

theorem load_aborts_unless_two_fields:
  "(create_tm (d # ds) mn mx pairs = Inl ValueError
      \<longleftrightarrow> (\<exists>l \<in> set pairs. length (split_on d ds [] l) \<noteq> 2))
   \<and> (\<forall>e. create_tm (d # ds) mn mx pairs = Inl e \<longrightarrow> e = ValueError)
   \<and> (\<forall>l. py_join (d # ds) (split_on d ds [] l) = l)
   \<and> (\<forall>l. \<forall>f \<in> set (split_on d ds [] l). \<not> sublist (d # ds) f)
   \<and> (\<forall>l. length (split_on d [] [] l) = Suc (count_list l d))"
proof -
  have a: "create_tm (d # ds) mn mx pairs = Inl e \<Longrightarrow>
           e = ValueError \<and> (\<exists>l \<in> set pairs. length (split_on d ds [] l) \<noteq> 2)" for e
    unfolding create_tm_def by (rule create_tm_loop_error)
  have b: "\<exists>l \<in> set pairs. length (split_on d ds [] l) \<noteq> 2 \<Longrightarrow>
           create_tm (d # ds) mn mx pairs = Inl ValueError"
    unfolding create_tm_def by (rule create_tm_loop_bad_line)
  have c: "py_join (d # ds) (split_on d ds [] l) = l" for l
    using join_split_on[of d ds "[]" l] by simp
  from a b c show ?thesis
    by (blast intro: split_on_single_char dest: split_fields_no_delimiter)
qed

theorem load_aborts_unless_two_fields_witness:
  "create_tm [CHR 0x09] 4 70
     [''hello worlX'' @ [CHR 0x09] @ ''bonjour mondeX'' @ [CHR 0x0A],
      ''no delimiter here'' @ [CHR 0x0A]] = Inl ValueError
   \<and> length (split_on (CHR 0x09) [] [] (''a'' @ [CHR 0x09] @ ''b'' @ [CHR 0x09] @ ''c''))
       = Suc (count_list (''a'' @ [CHR 0x09] @ ''b'' @ [CHR 0x09] @ ''c'') (CHR 0x09))"
proof -
  note t = load_aborts_unless_two_fields[of "CHR 0x09" "[]" 4 70
     "[''hello worlX'' @ [CHR 0x09] @ ''bonjour mondeX'' @ [CHR 0x0A],
       ''no delimiter here'' @ [CHR 0x0A]]"]
  have "\<exists>l \<in> set [''hello worlX'' @ [CHR 0x09] @ ''bonjour mondeX'' @ [CHR 0x0A],
                     ''no delimiter here'' @ [CHR 0x0A]].
          length (split_on (CHR 0x09) [] [] l) \<noteq> 2"
    by simp
  with t show ?thesis by blast
qed

text \<open>
  C5 as stated fails: a line with two delimiters splits into three fields and the load
  raises.
\<close>

theorem split_first_occurrence_counterexample:
  "py_split (''a'' @ [CHR 0x09] @ ''b'' @ [CHR 0x09] @ ''c'' @ [CHR 0x0A]) [CHR 0x09]
     = Inr [''a'', ''b'', ''c'' @ [CHR 0x0A]]
   \<and> create_tm [CHR 0x09] 1 70 [''a'' @ [CHR 0x09] @ ''b'' @ [CHR 0x09] @ ''c'' @ [CHR 0x0A]]
     = Inl ValueError"
  by code_simp

text \<open>
  C6, as amended. The scores that the code compares are the cells of the \<^verbatim>\<open>uint8\<close>
  matrix: a score below the threshold is stored as 0, any other score rounded to an
  integer. If the augmenter returns and item \<open>i\<close> of its output differs from item \<open>i\<close>
  of the array, then some TM source scores at least the threshold against the item, the
  index used is the first index at which the stored score is maximal, that stored
  score is below 100, and the output item is the item followed by the marker and the
  target at that index.
\<close>

theorem augmented_only_on_fuzzy_match:
  assumes "get_batch_matches m sc batch = Inr out"
    and "i < length batch"
    and "out ! i \<noteq> np_str (batch ! i)"
  shows "let s = np_str (batch ! i); row = tm_row m sc s; k = np_argmax row in
           (\<exists>j < length (fst (internal_tm m)). threshold m \<le> sc s (fst (internal_tm m) ! j))
         \<and> length row = length (fst (internal_tm m))
         \<and> (\<forall>j < length row.
               row ! j = (if sc s (fst (internal_tm m) ! j) < threshold m then 0
                          else to_uint8 (sc s (fst (internal_tm m) ! j))))
         \<and> k < length row
         \<and> (\<forall>j < length row. row ! j \<le> row ! k)
         \<and> (\<forall>j < k. row ! j < row ! k)
         \<and> row ! k < 100
         \<and> out ! i = s @ fuzzy_token m @ snd (internal_tm m) ! k"
proof -
  let ?s = "np_str (batch ! i)"
  let ?row = "tm_row m sc ?s"
  from assms(1) obtain fc where st: "batch_matches_state m sc batch = Inr (out, fc)"
    by (auto simp: get_batch_matches_def split: sum.splits prod.splits)
  have "item_rel m (scored_item m sc ?s) (out ! i)"
    using state_rel[OF st] assms(2)
    by (simp add: list_all2_conv_all_nth length_np_array np_array_def)
  with assms(3) have a: "np_any ?row" "?row ! np_argmax ?row < 100"
      "out ! i = ?s @ fuzzy_token m @ snd (internal_tm m) ! np_argmax ?row"
    by (auto simp: scored_item_def item_rel_simp)
  have cells: "\<forall>j < length ?row.
      ?row ! j = (if sc ?s (fst (internal_tm m) ! j) < threshold m then 0
                  else to_uint8 (sc ?s (fst (internal_tm m) ! j)))"
    by (simp add: tm_row_def cdist_cell_def)
  have len: "length ?row = length (fst (internal_tm m))"
    by (simp add: tm_row_def)
  from np_any_threshold[OF a(1)] np_argmax_props[OF np_any_nonempty[OF a(1)]] a(2,3) cells len
  show ?thesis unfolding Let_def by blast
qed

theorem augmented_only_on_fuzzy_match_witness:
  "threshold \<lparr>threshold = 70, corpus_ratio = 1, tm_delimiter = [CHR 0x09], fuzzy_token = ''[F]'',
      tm_unit_min_length = 4, tm_unit_max_length = 70,
      internal_tm = ([''hello worlX''], [''bonjour mondeX''])\<rparr>
     \<le> fuzz_ratio ''hello world'' ''hello worlX''
   \<and> tm_row \<lparr>threshold = 70, corpus_ratio = 1, tm_delimiter = [CHR 0x09], fuzzy_token = ''[F]'',
      tm_unit_min_length = 4, tm_unit_max_length = 70,
      internal_tm = ([''hello worlX''], [''bonjour mondeX''])\<rparr> fuzz_ratio ''hello world'' ! 0 = 91
   \<and> [''hello worle[F]bar'', ''hello world[F]bonjour mondeX''] ! 1
       = ''hello world'' @ ''[F]'' @ [''bonjour mondeX''] ! 0"
proof -
  let ?m = "\<lparr>threshold = 70, corpus_ratio = 1, tm_delimiter = [CHR 0x09], fuzzy_token = ''[F]'',
      tm_unit_min_length = 4, tm_unit_max_length = 70,
      internal_tm = ([''hello worlX''], [''bonjour mondeX''])\<rparr>"
  have s: "np_str ([''hello worle[F]bar'', ''hello world''] ! 1) = ''hello world''"
    by code_simp
  have k: "np_argmax (tm_row ?m fuzz_ratio ''hello world'') = 0"
    by code_simp
  have c: "tm_row ?m fuzz_ratio ''hello world'' ! 0 = 91"
    by code_simp
  have "1 < length [''hello worle[F]bar'', ''hello world'']" by simp
  moreover have "[''hello worle[F]bar'', ''hello world[F]bonjour mondeX''] ! 1
                   \<noteq> np_str ([''hello worle[F]bar'', ''hello world''] ! 1)"
    unfolding s by simp
  ultimately have t:
    "let s = np_str ([''hello worle[F]bar'', ''hello world''] ! 1);
         row = tm_row ?m fuzz_ratio s; k = np_argmax row in
       (\<exists>j < length (fst (internal_tm ?m)). threshold ?m \<le> fuzz_ratio s (fst (internal_tm ?m) ! j))
     \<and> length row = length (fst (internal_tm ?m))
     \<and> (\<forall>j < length row.
           row ! j = (if fuzz_ratio s (fst (internal_tm ?m) ! j) < threshold ?m then 0
                      else to_uint8 (fuzz_ratio s (fst (internal_tm ?m) ! j))))
     \<and> k < length row
     \<and> (\<forall>j < length row. row ! j \<le> row ! k)
     \<and> (\<forall>j < k. row ! j < row ! k)
     \<and> row ! k < 100
     \<and> [''hello worle[F]bar'', ''hello world[F]bonjour mondeX''] ! 1
         = s @ fuzzy_token ?m @ snd (internal_tm ?m) ! k"
    by (rule augmented_only_on_fuzzy_match[OF example_marked_item_result])
  from t have "(\<exists>j < length (fst (internal_tm ?m)).
                  threshold ?m \<le> fuzz_ratio ''hello world'' (fst (internal_tm ?m) ! j))
     \<and> [''hello worle[F]bar'', ''hello world[F]bonjour mondeX''] ! 1
         = ''hello world'' @ fuzzy_token ?m @ snd (internal_tm ?m) ! 0"
    unfolding Let_def s k by blast
  with c show ?thesis by simp
qed

text \<open>
  C6 as stated fails: the claim names the first maximal-scoring TM index. The item
  \<open>abcdefghij\<close> scores 1800/19 against the first source and 2000/21, which is more,
  against the second; both are stored as 95, and the target of the first is appended.
\<close>

theorem rounded_scores_counterexample:
  "get_batch_matches
     \<lparr>threshold = 70, corpus_ratio = 1, tm_delimiter = [CHR 0x09], fuzzy_token = ''[F]'',
      tm_unit_min_length = 4, tm_unit_max_length = 70,
      internal_tm = ([''abcdefghi'', ''abcdefghijX''], [''T1'', ''T2''])\<rparr>
     fuzz_ratio [''abcdefghij'']
   = Inr [''abcdefghij[F]T1'']
   \<and> fuzz_ratio ''abcdefghij'' ''abcdefghi'' < fuzz_ratio ''abcdefghij'' ''abcdefghijX''
   \<and> to_uint8 (fuzz_ratio ''abcdefghij'' ''abcdefghi'') = 95
   \<and> to_uint8 (fuzz_ratio ''abcdefghij'' ''abcdefghijX'') = 95"
  by code_simp

text \<open>
  C7. The claim says that an item that contains the marker is returned unchanged, for
  every TM. With an empty TM \<^verbatim>\<open>np.argmax\<close> raises before the marker is looked for, and
  nothing is returned. With a TM that has an entry the item is returned as the NumPy
  array gave it (\<open>marked_items_kept\<close>), which is without the NUL characters at its end.
\<close>

theorem marked_item_not_returned:
  "sublist ''[F]'' ''foo[F]bar''
   \<and> get_batch_matches
       \<lparr>threshold = 70, corpus_ratio = 1 / 10, tm_delimiter = [CHR 0x09], fuzzy_token = ''[F]'',
      tm_unit_min_length = 4, tm_unit_max_length = 70, internal_tm = ([], [])\<rparr>
       fuzz_ratio [''foo[F]bar'']
     = Inl ValueError
   \<and> sublist ''[F]'' (''foo[F]bar'' @ [CHR 0x00])
   \<and> get_batch_matches
       \<lparr>threshold = 70, corpus_ratio = 1, tm_delimiter = [CHR 0x09], fuzzy_token = ''[F]'',
      tm_unit_min_length = 4, tm_unit_max_length = 70,
      internal_tm = ([''hello worlX''], [''bonjour mondeX''])\<rparr>
       fuzz_ratio [''foo[F]bar'' @ [CHR 0x00]]
     = Inr [''foo[F]bar'']"
  by code_simp

text \<open>
  C8. If the load succeeds, every line split into a source and a target field, and the
  TM holds, in the order of the lines, the stripped sources and the stripped targets of
  the lines whose source field, before stripping, has a length in
  \<open>[min_length, max_length]\<close>; the two lists have the same length.
\<close>

theorem tm_contents:
  assumes "create_tm delim mn mx pairs = Inr (sources, targets)"
  shows "\<exists>fields.
           map (\<lambda>l. py_split l delim) pairs = map (\<lambda>(source, target). Inr [source, target]) fields
         \<and> sources = map (strip \<circ> fst)
             (filter (\<lambda>(source, target). mn \<le> int (length source) \<and> int (length source) \<le> mx) fields)
         \<and> targets = map (strip \<circ> snd)
             (filter (\<lambda>(source, target). mn \<le> int (length source) \<and> int (length source) \<le> mx) fields)
         \<and> length sources = length targets"
proof -
  from create_tm_loop_result[OF assms[unfolded create_tm_def]]
  obtain fields where
    f: "map (\<lambda>l. py_split l delim) pairs = map (\<lambda>(source, target). Inr [source, target]) fields"
       "sources = map (strip \<circ> fst)
             (filter (\<lambda>(source, target). mn \<le> int (length source) \<and> int (length source) \<le> mx) fields)"
       "targets = map (strip \<circ> snd)
             (filter (\<lambda>(source, target). mn \<le> int (length source) \<and> int (length source) \<le> mx) fields)"
    by auto
  then have "length sources = length targets" by simp
  with f show ?thesis by blast
qed

theorem tm_contents_witness:
  "\<exists>fields.
      map (\<lambda>l. py_split l [CHR 0x09])
        [''hello worlX'' @ [CHR 0x09] @ ''bonjour mondeX'' @ [CHR 0x0A],
         ''ab'' @ [CHR 0x09] @ ''cd'' @ [CHR 0x0A]]
        = map (\<lambda>(source, target). Inr [source, target]) fields
    \<and> [''hello worlX''] = map (strip \<circ> fst)
          (filter (\<lambda>(source, target). 4 \<le> int (length source) \<and> int (length source) \<le> 70) fields)
    \<and> [''bonjour mondeX''] = map (strip \<circ> snd)
          (filter (\<lambda>(source, target). 4 \<le> int (length source) \<and> int (length source) \<le> 70) fields)
    \<and> length [''hello worlX''] = length [''bonjour mondeX'']"
  by (rule tm_contents[OF example_tm])




text \<open>
  C10. Let \<^verbatim>\<open>batch_apply\<close> return, and let example \<open>i\<close> have a joined source whose
  length is not strictly between the two bounds. Then the string passed for it is the
  empty string, the augmenter returns the empty string for it, and the example comes
  back as it was, all its fields included; an example is changed only where the
  augmenter returned a string that is not empty. The scorer is external: the empty
  string is assumed to score 0 or 100 against every TM source, as the Indel ratio does
  (\<open>fuzz_ratio_empty_query\<close>).
\<close>

theorem out_of_range_example_untouched:
  assumes "batch_apply t sc batch = Inr out"
    and "i < length batch"
    and "batch ! i = (ex, x, y)"
    and "ex ''src'' = Some toks"
    and "\<not> (int (length (join_space toks)) > fuzzymatch_min_length t
            \<and> int (length (join_space toks)) < fuzzymatch_max_length t)"
    and "\<forall>c \<in> set (fst (internal_tm (matcher t))). sc [] c = 0 \<or> sc [] c = 100"
  shows "\<exists>segs fuzzied_src.
           src_segments t batch = Inr segs \<and> segs ! i = []
         \<and> get_batch_matches (matcher t) sc segs = Inr fuzzied_src \<and> fuzzied_src ! i = []
         \<and> length out = length batch \<and> out ! i = batch ! i
         \<and> (\<forall>j < length batch. out ! j \<noteq> batch ! j \<longrightarrow> fuzzied_src ! j \<noteq> [])"
proof -
  from assms(1) obtain segs fuzzied_src where
    segs: "src_segments t batch = Inr segs"
    and fz: "get_batch_matches (matcher t) sc segs = Inr fuzzied_src"
    and len: "length segs = length fuzzied_src"
    and out: "out = write_back batch fuzzied_src"
    by (auto simp: batch_apply_def split: sum.splits if_splits)
  note rel = src_segments_rel[OF segs]
  have lb: "length segs = length batch" using rel by (simp add: list_all2_lengthD)
  have "segs ! i = []"
    using rel assms(2,3,4,5) by (auto simp: list_all2_conv_all_nth)
  moreover from sentinel_kept[of "matcher t" sc segs fuzzied_src i, OF fz _ this assms(6)] have fi: "fuzzied_src ! i = []"
    using assms(2) lb by simp
  moreover have "length out = length batch"
    using len lb by (simp add: out write_back_def)
  moreover have "out ! i = batch ! i"
    using write_back_nth[of i batch fuzzied_src] assms(2,3) len lb fi by (simp add: out)
  moreover have "\<forall>j < length batch. out ! j \<noteq> batch ! j \<longrightarrow> fuzzied_src ! j \<noteq> []"
    using len lb by (auto simp: out write_back_nth split: prod.splits)
  ultimately show ?thesis using segs fz by blast
qed

theorem out_of_range_example_untouched_witness:
  "\<not> (int (length (join_space [''hi''])) > 4 \<and> int (length (join_space [''hi''])) < 70)
   \<and> fuzz_ratio [] ''hello worlX'' = 0
   \<and> [([''src'' \<mapsto> [''hi'']], (), ()),
       ([''src'' \<mapsto> [''hello'', ''world[F]bonjour'', ''mondeX'']], (), ())] ! 0
      = [([''src'' \<mapsto> [''hi'']], (), ()), ([''src'' \<mapsto> [''hello'', ''world'']], (), ())] ! 0"
proof -
  let ?t = "\<lparr>fuzzymatch_min_length = 4, fuzzymatch_max_length = 70,
      matcher = \<lparr>threshold = 70, corpus_ratio = 1, tm_delimiter = [CHR 0x09],
                 fuzzy_token = ''[F]'', tm_unit_min_length = 4, tm_unit_max_length = 70,
                 internal_tm = ([''hello worlX''], [''bonjour mondeX''])\<rparr>\<rparr>"
  let ?batch = "[([''src'' \<mapsto> [''hi'']], (), ()), ([''src'' \<mapsto> [''hello'', ''world'']], (), ())]
                  :: ((string \<rightharpoonup> string list) \<times> unit \<times> unit) list"
  have rng: "\<not> (int (length (join_space [''hi''])) > fuzzymatch_min_length ?t
               \<and> int (length (join_space [''hi''])) < fuzzymatch_max_length ?t)"
    by simp
  have sc0: "fuzz_ratio [] ''hello worlX'' = 0"
    by (simp add: fuzz_ratio_empty_query)
  then have sc: "\<forall>c \<in> set (fst (internal_tm (matcher ?t))). fuzz_ratio [] c = 0 \<or> fuzz_ratio [] c = 100"
    by simp
  have "0 < length ?batch" by simp
  moreover have "?batch ! 0 = ([''src'' \<mapsto> [''hi'']], (), ())" by simp
  moreover have "[''src'' \<mapsto> [''hi'']] ''src'' = Some [''hi'']" by simp
  ultimately have "\<exists>segs fuzzied_src.
           src_segments ?t ?batch = Inr segs \<and> segs ! 0 = []
         \<and> get_batch_matches (matcher ?t) fuzz_ratio segs = Inr fuzzied_src \<and> fuzzied_src ! 0 = []
         \<and> length [([''src'' \<mapsto> [''hi'']], (), ()),
                    ([''src'' \<mapsto> [''hello'', ''world[F]bonjour'', ''mondeX'']], (), ())] = length ?batch
         \<and> [([''src'' \<mapsto> [''hi'']], (), ()),
             ([''src'' \<mapsto> [''hello'', ''world[F]bonjour'', ''mondeX'']], (), ())] ! 0 = ?batch ! 0
         \<and> (\<forall>j < length ?batch.
               [([''src'' \<mapsto> [''hi'']], (), ()),
                ([''src'' \<mapsto> [''hello'', ''world[F]bonjour'', ''mondeX'']], (), ())] ! j \<noteq> ?batch ! j
               \<longrightarrow> fuzzied_src ! j \<noteq> [])"
    using rng sc
    by (intro out_of_range_example_untouched[OF example_batch_apply, of 0 "[''src'' \<mapsto> [''hi'']]" "()" "()" "[''hi'']"])
  then have "[([''src'' \<mapsto> [''hi'']], (), ()),
             ([''src'' \<mapsto> [''hello'', ''world[F]bonjour'', ''mondeX'']], (), ())] ! 0 = ?batch ! 0"
    by blast
  with rng sc0 show ?thesis by simp
qed

end
